theory Spec2Isabelle
  imports Main "HOL-Library.Word" "HOL-Library.Multiset"
begin
unbundle bit_operations_syntax

section \<open>Indices and their byte encodings\<close>

text \<open>
  \<^verbatim>\<open>eh_index\<close> is \<^verbatim>\<open>uint32_t\<close>, \<^verbatim>\<open>eh_trunc\<close> is \<^verbatim>\<open>uint8_t\<close>, and a row is an
  \<^verbatim>\<open>unsigned char hash[WIDTH]\<close>.
\<close>

type_synonym byte = "8 word"
type_synonym eh_index = "32 word"
type_synonym eh_trunc = "8 word"
type_synonym row = "byte list"

text \<open>
  \<^verbatim>\<open>TruncateIndex\<close>: \<^verbatim>\<open>(i >> (ilen - 8)) & 0xff\<close>, narrowed to eight bits. \<^verbatim>\<open>ilen\<close> is an
  \<^verbatim>\<open>unsigned int\<close>; every caller passes \<^verbatim>\<open>CollisionBitLength + 1\<close>, and the shift is
  defined in C++ only for \<open>8 \<le> ilen\<close> and \<open>ilen - 8 < 32\<close>.
\<close>

definition TruncateIndex :: "eh_index \<Rightarrow> nat \<Rightarrow> eh_trunc" where
  "TruncateIndex i ilen = ucast ((drop_bit (ilen - 8) i) AND 0xff)"

text \<open>\<^verbatim>\<open>UntruncateIndex\<close>: \<^verbatim>\<open>eh_index i{t}; return (i << (ilen - 8)) | r;\<close>\<close>

definition UntruncateIndex :: "eh_trunc \<Rightarrow> eh_index \<Rightarrow> nat \<Rightarrow> eh_index" where
  "UntruncateIndex t r ilen = push_bit (ilen - 8) (ucast t :: eh_index) OR r"

text \<open>
  \<^verbatim>\<open>EhIndexToArray\<close> stores \<^verbatim>\<open>htobe32(i)\<close>, \<^verbatim>\<open>ArrayToEhIndex\<close> reads it back: the four
  bytes are the index in big-endian order on every host. A pointer \<^verbatim>\<open>hash+len\<close> is the
  list \<open>drop len hash\<close>.
\<close>

definition EhIndexToArray :: "eh_index \<Rightarrow> byte list" where
  "EhIndexToArray i = [ucast (drop_bit 24 i), ucast (drop_bit 16 i), ucast (drop_bit 8 i), ucast i]"

definition ArrayToEhIndex :: "byte list \<Rightarrow> eh_index" where
  "ArrayToEhIndex array =
     push_bit 24 (ucast (array ! 0)) OR push_bit 16 (ucast (array ! 1)) OR
     push_bit 8 (ucast (array ! 2)) OR ucast (array ! 3)"

text \<open>The seed is fed to the hash as \<^verbatim>\<open>htole32(i)\<close>: four bytes, least significant first.\<close>

definition le32 :: "eh_index \<Rightarrow> byte list" where
  "le32 i = [ucast i, ucast (drop_bit 8 i), ucast (drop_bit 16 i), ucast (drop_bit 24 i)]"

section \<open>Rows\<close>

text \<open>
  \<^verbatim>\<open>std::copy(src+first, src+fin, dst+d)\<close> and \<^verbatim>\<open>memcpy\<close>: one byte after the other. The
  source never copies between overlapping ranges (source and destination are different
  objects).
\<close>

definition std_copy :: "byte list \<Rightarrow> nat \<Rightarrow> nat \<Rightarrow> row \<Rightarrow> nat \<Rightarrow> row" where
  "std_copy src first fin dst d = fold (\<lambda>k h. h[d + (k - first) := src ! k]) [first..<fin] dst"

text \<open>
  Blake2b is an external primitive. A base hash state is represented by what it yields:
  for the bytes fed in by \<^verbatim>\<open>crypto_generichash_blake2b_update\<close>, the byte at each position
  of the digest that \<^verbatim>\<open>crypto_generichash_blake2b_final\<close> writes.
\<close>

type_synonym eh_HashState = "byte list \<Rightarrow> nat \<Rightarrow> byte"

definition CollisionBitLength :: "nat \<Rightarrow> nat \<Rightarrow> nat" where
  "CollisionBitLength n k = n div (k + 1)"

definition CollisionByteLength :: "nat \<Rightarrow> nat \<Rightarrow> nat" where
  "CollisionByteLength n k = (CollisionBitLength n k + 7) div 8"

definition ExpandedHashLength :: "nat \<Rightarrow> nat \<Rightarrow> nat" where
  "ExpandedHashLength n k = (k + 1) * CollisionByteLength n k"

text \<open>
  \<^verbatim>\<open>StepRow<WIDTH>::StepRow(n, k, base_state, i)\<close>: the digest of the seed, then the high
  byte of each of the \<open>k + 1\<close> blocks masked. The bytes of \<^verbatim>\<open>hash\<close> that a constructor
  does not write are uninitialised in C++; they are 0 here, and no function of the source
  reads them before they are written.
\<close>

definition StepRow_new :: "nat \<Rightarrow> nat \<Rightarrow> nat \<Rightarrow> eh_HashState \<Rightarrow> eh_index \<Rightarrow> row" where
  "StepRow_new WIDTH n k base_state i =
     (let digest = map (base_state (le32 i)) [0..<ExpandedHashLength n k];
          hash = std_copy digest 0 (ExpandedHashLength n k) (replicate WIDTH 0) 0
      in fold (\<lambda>j h. h[j * CollisionByteLength n k :=
                 (h ! (j * CollisionByteLength n k)) AND
                 drop_bit (8 * CollisionByteLength n k - CollisionBitLength n k) 0xFF])
           [0..<k + 1] hash)"

text \<open>\<^verbatim>\<open>StepRow<WIDTH>::StepRow(const StepRow<W>& a)\<close>, where \<open>W = length a\<close>.\<close>

definition StepRow_copy :: "nat \<Rightarrow> row \<Rightarrow> row" where
  "StepRow_copy WIDTH a = std_copy a 0 (length a) (replicate WIDTH 0) 0"

definition FullStepRow_new :: "nat \<Rightarrow> nat \<Rightarrow> nat \<Rightarrow> eh_HashState \<Rightarrow> eh_index \<Rightarrow> row" where
  "FullStepRow_new WIDTH n k base_state i =
     std_copy (EhIndexToArray i) 0 4 (StepRow_new WIDTH n k base_state i) (ExpandedHashLength n k)"

definition TruncatedStepRow_new ::
  "nat \<Rightarrow> nat \<Rightarrow> nat \<Rightarrow> eh_HashState \<Rightarrow> eh_index \<Rightarrow> nat \<Rightarrow> row" where
  "TruncatedStepRow_new WIDTH n k base_state i ilen =
     (StepRow_new WIDTH n k base_state i)[ExpandedHashLength n k := TruncateIndex i ilen]"

text \<open>
  \<^verbatim>\<open>memcmp(p, q, n) < 0\<close>: the first \<open>n\<close> bytes at \<open>p\<close> are before those at \<open>q\<close> in the
  lexicographic order of unsigned bytes.
\<close>

definition memcmp_less :: "byte list \<Rightarrow> byte list \<Rightarrow> nat \<Rightarrow> bool" where
  "memcmp_less p q n = ord_class.lexordp (map ((!) p) [0..<n]) (map ((!) q) [0..<n])"

text \<open>
  Modelled from the spec: \<^verbatim>\<open>IndicesBefore\<close> is declared in \<^verbatim>\<open>crypto/equihash.h\<close>, which is
  not among the sources. Every call passes \<^verbatim>\<open>len\<close> and \<^verbatim>\<open>lenIndices\<close>, the place and the
  size of the whole index history. The spec stores the indices of full rows big-endian,
  \<open>for lexicographic-equals-integer ordering\<close>, and has a merged history be
  \<open>the lexicographically smaller of the two orderings\<close>: \<open>a\<close> is before \<open>b\<close> iff the
  \<^verbatim>\<open>lenIndices\<close> bytes of \<open>a\<close>'s history are before those of \<open>b\<close>'s as unsigned bytes,
  \<^verbatim>\<open>memcmp(hash+len, a.hash+len, lenIndices) < 0\<close>. Where the leftmost indices of the two
  histories differ, this is the spec's \<open>leftmost index strictly less\<close>; where they are
  equal, the bytes after them decide.
\<close>

definition Full_IndicesBefore :: "row \<Rightarrow> row \<Rightarrow> nat \<Rightarrow> nat \<Rightarrow> bool" where
  "Full_IndicesBefore this a len lenIndices = memcmp_less (drop len this) (drop len a) lenIndices"

definition Truncated_IndicesBefore :: "row \<Rightarrow> row \<Rightarrow> nat \<Rightarrow> nat \<Rightarrow> bool" where
  "Truncated_IndicesBefore this a len lenIndices = memcmp_less (drop len this) (drop len a) lenIndices"

text \<open>
  The merging constructor, \<^verbatim>\<open>FullStepRow<WIDTH>::FullStepRow(a, b, len, lenIndices, trim)\<close>
  and its twin for truncated rows, which differ in \<^verbatim>\<open>IndicesBefore\<close> only. Their two
  assertions, \<^verbatim>\<open>len+lenIndices <= W\<close> and \<^verbatim>\<open>len-trim+(2*lenIndices) <= WIDTH\<close>, are the
  predicate \<open>merge_widths_ok\<close>; \<^verbatim>\<open>trim <= len\<close> holds at every call.
\<close>

definition merge_widths_ok :: "nat \<Rightarrow> nat \<Rightarrow> nat \<Rightarrow> nat \<Rightarrow> nat \<Rightarrow> bool" where
  "merge_widths_ok W WIDTH len lenIndices trim =
     (W \<le> WIDTH \<and> len + lenIndices \<le> W \<and> len - trim + 2 * lenIndices \<le> WIDTH \<and> trim \<le> len)"

definition StepRow_merge ::
  "(row \<Rightarrow> row \<Rightarrow> nat \<Rightarrow> nat \<Rightarrow> bool) \<Rightarrow> nat \<Rightarrow> row \<Rightarrow> row \<Rightarrow> nat \<Rightarrow> nat \<Rightarrow> nat \<Rightarrow> row" where
  "StepRow_merge indicesBefore WIDTH a b len lenIndices trim =
     (let hash = fold (\<lambda>i h. h[i - trim := a ! i XOR b ! i]) [trim..<len] (StepRow_copy WIDTH a)
      in if indicesBefore a b len lenIndices
         then std_copy b len (len + lenIndices)
                (std_copy a len (len + lenIndices) hash (len - trim)) (len - trim + lenIndices)
         else std_copy a len (len + lenIndices)
                (std_copy b len (len + lenIndices) hash (len - trim)) (len - trim + lenIndices))"

definition FullStepRow_merge :: "nat \<Rightarrow> row \<Rightarrow> row \<Rightarrow> nat \<Rightarrow> nat \<Rightarrow> nat \<Rightarrow> row" where
  "FullStepRow_merge = StepRow_merge Full_IndicesBefore"

definition TruncatedStepRow_merge :: "nat \<Rightarrow> row \<Rightarrow> row \<Rightarrow> nat \<Rightarrow> nat \<Rightarrow> nat \<Rightarrow> row" where
  "TruncatedStepRow_merge = StepRow_merge Truncated_IndicesBefore"

text \<open>\<^verbatim>\<open>IsZero\<close>, \<^verbatim>\<open>HasCollision\<close>: loops that return false at the first difference.\<close>

definition IsZero :: "row \<Rightarrow> nat \<Rightarrow> bool" where
  "IsZero hash len = list_all (\<lambda>i. hash ! i = 0) [0..<len]"

definition HasCollision :: "row \<Rightarrow> row \<Rightarrow> nat \<Rightarrow> bool" where
  "HasCollision a b l = list_all (\<lambda>j. a ! j = b ! j) [0..<l]"

text \<open>
  \<^verbatim>\<open>GetIndices\<close>: \<^verbatim>\<open>for (int i = 0; i < lenIndices; i += sizeof(eh_index))\<close>, one index
  per four bytes. \<^verbatim>\<open>GetTruncatedIndices\<close> copies \<^verbatim>\<open>lenIndices\<close> bytes.
\<close>

definition GetIndices :: "row \<Rightarrow> nat \<Rightarrow> nat \<Rightarrow> eh_index list" where
  "GetIndices hash len lenIndices =
     map (\<lambda>j. ArrayToEhIndex (drop (len + 4 * j) hash)) [0..<(lenIndices + 3) div 4]"

definition GetTruncatedIndices :: "row \<Rightarrow> nat \<Rightarrow> nat \<Rightarrow> eh_trunc list" where
  "GetTruncatedIndices hash len lenIndices = map (\<lambda>j. hash ! (len + j)) [0..<lenIndices]"
section \<open>The verifier\<close>

text \<open>
  Modelled from the spec: \<^verbatim>\<open>DistinctIndices\<close> is not defined among the sources. The spec:
  two rows are merge-admissible iff their index histories are disjoint.
\<close>

definition DistinctIndices :: "row \<Rightarrow> row \<Rightarrow> nat \<Rightarrow> nat \<Rightarrow> bool" where
  "DistinctIndices a b len lenIndices =
     list_all (\<lambda>x. x \<notin> set (GetIndices b len lenIndices)) (GetIndices a len lenIndices)"

text \<open>
  \<^verbatim>\<open>IsValidSolution\<close> returns a \<^verbatim>\<open>bool\<close>. What C++ leaves undefined or aborts on is a
  fault here: a read of \<^verbatim>\<open>X[i+1]\<close> past the end of the vector, and a failure of
  \<^verbatim>\<open>assert(X.size() == 1)\<close>.
\<close>

datatype fault = OutOfBounds | AssertionFailure

text \<open>
  The inner loop, \<^verbatim>\<open>for (int i = 0; i < X.size(); i += 2)\<close>: \<open>Inr None\<close> is one of its three
  \<^verbatim>\<open>return false\<close>, \<open>Inr (Some Xc)\<close> its normal end with the merged rows.
\<close>

function verify_pairs ::
  "nat \<Rightarrow> nat \<Rightarrow> row list \<Rightarrow> nat \<Rightarrow> nat \<Rightarrow> nat \<Rightarrow> row list \<Rightarrow> fault + row list option" where
  "verify_pairs WIDTH clen X hashLen lenIndices i Xc =
     (if i < length X then
        if length X \<le> i + 1 then Inl OutOfBounds
        else if \<not> HasCollision (X ! i) (X ! (i + 1)) clen then Inr None
        else if Full_IndicesBefore (X ! (i + 1)) (X ! i) hashLen lenIndices then Inr None
        else if \<not> DistinctIndices (X ! i) (X ! (i + 1)) hashLen lenIndices then Inr None
        else verify_pairs WIDTH clen X hashLen lenIndices (i + 2)
               (Xc @ [FullStepRow_merge WIDTH (X ! i) (X ! (i + 1)) hashLen lenIndices clen])
      else Inr (Some Xc))"
  by pat_completeness auto
termination
  by (relation "measure (\<lambda>(WIDTH, clen, X, hashLen, lenIndices, i, Xc). length X - i)") auto

declare verify_pairs.simps [simp del]

text \<open>
  One pass of the body of \<^verbatim>\<open>while (X.size() > 1)\<close> on the state \<open>(X, hashLen, lenIndices)\<close>:
  the inner loop, then \<^verbatim>\<open>X = Xc; hashLen -= CollisionByteLength; lenIndices *= 2\<close>.
\<close>

definition level_step ::
  "nat \<Rightarrow> nat \<Rightarrow> row list \<times> nat \<times> nat \<Rightarrow> fault + (row list \<times> nat \<times> nat) option" where
  "level_step WIDTH clen s =
     (case s of (X, hashLen, lenIndices) \<Rightarrow>
        (case verify_pairs WIDTH clen X hashLen lenIndices 0 [] of
           Inl f \<Rightarrow> Inl f
         | Inr None \<Rightarrow> Inr None
         | Inr (Some Xc) \<Rightarrow> Inr (Some (Xc, hashLen - clen, lenIndices * 2))))"

lemma verify_pairs_length:
  "verify_pairs WIDTH clen X hashLen lenIndices i Xc = Inr (Some Xc') \<Longrightarrow>
   length Xc' = length Xc + (length X - i) div 2 \<and> even (length X - i)"
proof (induction WIDTH clen X hashLen lenIndices i Xc rule: verify_pairs.induct)
  case (1 WIDTH clen X hashLen lenIndices i Xc)
  show ?case
  proof (cases "i < length X")
    case False
    with "1.prems" show ?thesis by (simp add: verify_pairs.simps)
  next
    case True
    with "1.prems" have c: "\<not> length X \<le> i + 1" "HasCollision (X ! i) (X ! (i + 1)) clen"
      "\<not> Full_IndicesBefore (X ! (i + 1)) (X ! i) hashLen lenIndices"
      "DistinctIndices (X ! i) (X ! (i + 1)) hashLen lenIndices"
      by (auto simp: verify_pairs.simps[of WIDTH clen X hashLen lenIndices i Xc] split: if_splits)
    with True "1.prems" have n: "verify_pairs WIDTH clen X hashLen lenIndices (i + 2)
               (Xc @ [FullStepRow_merge WIDTH (X ! i) (X ! (i + 1)) hashLen lenIndices clen]) = Inr (Some Xc')"
      by (simp add: verify_pairs.simps[of WIDTH clen X hashLen lenIndices i Xc])
    have "length Xc' = length Xc + 1 + (length X - (i + 2)) div 2 \<and> even (length X - (i + 2))"
      using "1.IH" True c n by simp
    moreover have "length X - i = length X - (i + 2) + 2" using c(1) by simp
    ultimately show ?thesis by simp
  qed
qed

text \<open>The \<^verbatim>\<open>while\<close> loop, the assertion after it and the final \<^verbatim>\<open>IsZero\<close>.\<close>

function verify_walk :: "nat \<Rightarrow> nat \<Rightarrow> row list \<times> nat \<times> nat \<Rightarrow> fault + bool" where
  "verify_walk WIDTH clen s =
     (if 1 < length (fst s) then
        (case level_step WIDTH clen s of
           Inl f \<Rightarrow> Inl f
         | Inr None \<Rightarrow> Inr False
         | Inr (Some s') \<Rightarrow> verify_walk WIDTH clen s')
      else if length (fst s) = 1 then Inr (IsZero (fst s ! 0) (fst (snd s)))
      else Inl AssertionFailure)"
  by pat_completeness auto
termination
proof (relation "measure (\<lambda>(WIDTH, clen, s). length (fst s))")
  show "wf (measure (\<lambda>(WIDTH, clen, s). length (fst s)))" by simp
next
  fix WIDTH clen :: nat and s :: "row list \<times> nat \<times> nat" and x2 x2a
  assume a: "1 < length (fst s)" "level_step WIDTH clen s = Inr x2" "x2 = Some x2a"
  obtain X h l where s: "s = (X, h, l)" by (cases s)
  from a s obtain Xc where "verify_pairs WIDTH clen X h l 0 [] = Inr (Some Xc)" "x2a = (Xc, h - clen, l * 2)"
    by (auto simp: level_step_def split: sum.splits option.splits)
  with verify_pairs_length[of WIDTH clen X h l 0 "[]" Xc] a(1) s
  show "((WIDTH, clen, x2a), WIDTH, clen, s) \<in> measure (\<lambda>(WIDTH, clen, s). length (fst s))"
    by auto
qed

declare verify_walk.simps [simp del]

text \<open>
  \<^verbatim>\<open>soln_size\<close> is \<^verbatim>\<open>1u << K\<close>, which is \<open>2 ^ K\<close> for the \<open>K < 32\<close> the class is
  instantiated with. \<^verbatim>\<open>FinalFullWidth\<close> is declared in the header; it is a parameter.
\<close>

definition IsValidSolution :: "nat \<Rightarrow> nat \<Rightarrow> nat \<Rightarrow> eh_HashState \<Rightarrow> eh_index list \<Rightarrow> fault + bool" where
  "IsValidSolution N K FinalFullWidth base_state soln =
     (if length soln \<noteq> 2 ^ K then Inr False
      else verify_walk FinalFullWidth (CollisionByteLength N K)
             (map (FullStepRow_new FinalFullWidth N K base_state) soln,
              ExpandedHashLength N K, 4))"

text \<open>
  \<open>level_reached WIDTH clen s0 j s\<close>: started in \<open>s0\<close>, the \<^verbatim>\<open>while\<close> loop is at its
  test in state \<open>s\<close> after \<open>j\<close> complete passes of its body.
\<close>

inductive level_reached :: "nat \<Rightarrow> nat \<Rightarrow> row list \<times> nat \<times> nat \<Rightarrow> nat \<Rightarrow> row list \<times> nat \<times> nat \<Rightarrow> bool"
  for WIDTH clen s0 where
  start: "level_reached WIDTH clen s0 0 s0"
| step: "level_reached WIDTH clen s0 j s \<Longrightarrow> 1 < length (fst s) \<Longrightarrow>
         level_step WIDTH clen s = Inr (Some s') \<Longrightarrow> level_reached WIDTH clen s0 (Suc j) s'"

section \<open>Collision rounds\<close>

text \<open>
  Step 2b, \<^verbatim>\<open>int j = 1; while (i+j < X.size() && HasCollision(X[i], X[i+j], clen)) j++;\<close>:
  the length of the run of rows that collide with \<^verbatim>\<open>X[i]\<close>.
\<close>

function find_run :: "row list \<Rightarrow> nat \<Rightarrow> nat \<Rightarrow> nat \<Rightarrow> nat" where
  "find_run X i j clen =
     (if i + j < length X \<and> HasCollision (X ! i) (X ! (i + j)) clen
      then find_run X i (j + 1) clen else j)"
  by pat_completeness auto
termination
  by (relation "measure (\<lambda>(X, i, j, clen). length X - (i + j))") auto

declare find_run.simps [simp del]

text \<open>
  Step 2c, the two \<^verbatim>\<open>for\<close> loops over the pairs \<open>l < m\<close> of a run. What is done with a
  pair differs between the three copies of the loop in the source; it is the parameter
  \<open>emit\<close>, which yields the row that \<^verbatim>\<open>Xc.emplace_back\<close> appends, if any.
\<close>

definition collect_pairs ::
  "(row \<Rightarrow> row \<Rightarrow> row option) \<Rightarrow> row list \<Rightarrow> nat \<Rightarrow> nat \<Rightarrow> row list \<Rightarrow> row list" where
  "collect_pairs emit X i j Xc =
     fold (\<lambda>l Xc. fold (\<lambda>m Xc. case emit (X ! (i + l)) (X ! (i + m)) of
                                    None \<Rightarrow> Xc | Some r \<Rightarrow> Xc @ [r])
                        [l + 1..<j] Xc)
          [0..<j - 1] Xc"

text \<open>
  Steps 2d and 2e,
  \<^verbatim>\<open>while (posFree < bound && Xc.size() > 0) { X[posFree++] = Xc.back(); Xc.pop_back(); }\<close>
\<close>

function store_back :: "row list \<Rightarrow> row list \<Rightarrow> nat \<Rightarrow> nat \<Rightarrow> row list \<times> row list \<times> nat" where
  "store_back X Xc posFree bound =
     (if posFree < bound \<and> Xc \<noteq> []
      then store_back (X[posFree := last Xc]) (butlast Xc) (posFree + 1) bound
      else (X, Xc, posFree))"
  by pat_completeness auto
termination
  by (relation "measure (\<lambda>(X, Xc, posFree, bound). bound - posFree)") auto

declare store_back.simps [simp del]

lemma find_run_ge: "j \<le> find_run X i j clen"
proof (induction X i j clen rule: find_run.induct)
  case (1 X i j clen)
  then show ?case by (subst find_run.simps) (auto simp: Suc_leD)
qed

lemma store_back_length:
  "store_back X Xc posFree bound = (X', Xc', posFree') \<Longrightarrow> length X' = length X"
proof (induction X Xc posFree bound rule: store_back.induct)
  case (1 X Xc posFree bound)
  then show ?case by (subst (asm) (2) store_back.simps) (auto split: if_splits)
qed

text \<open>
  The scan of \<^verbatim>\<open>CollideBranches\<close>, \<^verbatim>\<open>while (i < X.size() - 1)\<close>. \<^verbatim>\<open>X.size() - 1\<close> is unsigned
  and wraps for an empty \<^verbatim>\<open>X\<close>; every caller passes a non-empty vector.
\<close>

function scan_loop ::
  "(row \<Rightarrow> row \<Rightarrow> row option) \<Rightarrow> nat \<Rightarrow> row list \<Rightarrow> row list \<Rightarrow> nat \<Rightarrow> nat \<Rightarrow> row list \<times> row list \<times> nat" where
  "scan_loop emit clen X Xc i posFree =
     (if i < length X - 1 then
        (case store_back X (collect_pairs emit X i (find_run X i 1 clen) Xc) posFree
                (i + find_run X i 1 clen) of
           (X', Xc', posFree') \<Rightarrow> scan_loop emit clen X' Xc' (i + find_run X i 1 clen) posFree')
      else (X, Xc, posFree))"
  by pat_completeness auto
termination
  apply (relation "measure (\<lambda>(emit, clen, X, Xc, i, posFree). length X - i)")
   apply simp
  subgoal for emit clen X Xc i posFree x xa y
    using find_run_ge[of 1 X i clen]
    by (auto dest!: store_back_length[OF sym])
  done

declare scan_loop.simps [simp del]

text \<open>
  Steps 2e to 2g after the scan: fill the free slots, then append what is left of
  \<^verbatim>\<open>Xc\<close>, or else cut the list at \<^verbatim>\<open>posFree\<close>.
\<close>

definition compact_end :: "row list \<times> row list \<times> nat \<Rightarrow> row list" where
  "compact_end s =
     (case s of (X, Xc, posFree) \<Rightarrow>
        (case store_back X Xc posFree (length X) of
           (X', Xc', posFree') \<Rightarrow>
             if Xc' \<noteq> [] then X' @ Xc'
             else if posFree' < length X' then take posFree' X'
             else X'))"


section \<open>Cancellation\<close>

text \<open>
  The labels of \<^verbatim>\<open>EhSolverCancelCheck\<close>. The probe \<^verbatim>\<open>cancelled\<close> is a
  \<^verbatim>\<open>std::function<bool(EhSolverCancelCheck)>\<close> and may keep state between its calls: it is
  a function of the labels it was called with so far (the latest first) and of the label
  of the call. A solver returns this log of the calls made and either its result or the
  way it was left: \<^verbatim>\<open>throw solver_cancelled\<close>, or a fault.
\<close>

datatype EhSolverCancelCheck =
  ListGeneration | ListSorting | ListColliding | RoundEnd | FinalSorting | FinalColliding |
  PartialGeneration | PartialSorting | PartialSubtreeEnd | PartialIndexEnd | PartialEnd

type_synonym probe_log = "EhSolverCancelCheck list"
type_synonym cancel_probe = "probe_log \<Rightarrow> EhSolverCancelCheck \<Rightarrow> bool"

datatype solver_exit = SolverCancelled | SolverFault fault

type_synonym 'a solver_result = "probe_log \<times> (solver_exit + 'a)"

text \<open>
  \<^verbatim>\<open>for (eh_index i = 0; i < size; i++) { X.emplace_back(...); if (cancelled(L)) throw solver_cancelled; }\<close>
  over the indices \<open>is\<close>, with \<open>mk\<close> the constructor called.
\<close>

fun generate ::
  "cancel_probe \<Rightarrow> EhSolverCancelCheck \<Rightarrow> (eh_index \<Rightarrow> row) \<Rightarrow> eh_index list \<Rightarrow> probe_log \<Rightarrow>
   row list solver_result" where
  "generate cancelled L mk [] log = (log, Inr [])"
| "generate cancelled L mk (i # is) log =
     (if cancelled log L then (L # log, Inl SolverCancelled)
      else (case generate cancelled L mk is (L # log) of
              (log', Inl e) \<Rightarrow> (log', Inl e)
            | (log', Inr X) \<Rightarrow> (log', Inr (mk i # X))))"

text \<open>
  The scan inside a round of \<^verbatim>\<open>BasicSolve\<close> and of \<^verbatim>\<open>OptimisedSolve\<close>: the loop of
  \<open>scan_loop\<close> with \<^verbatim>\<open>if (cancelled(ListColliding)) throw solver_cancelled;\<close> at the end of
  its body.
\<close>

function scan_loop_probed ::
  "cancel_probe \<Rightarrow> EhSolverCancelCheck \<Rightarrow> (row \<Rightarrow> row \<Rightarrow> row option) \<Rightarrow> nat \<Rightarrow>
   row list \<Rightarrow> row list \<Rightarrow> nat \<Rightarrow> nat \<Rightarrow> probe_log \<Rightarrow> (row list \<times> row list \<times> nat) solver_result" where
  "scan_loop_probed cancelled L emit clen X Xc i posFree log =
     (if i < length X - 1 then
        (case store_back X (collect_pairs emit X i (find_run X i 1 clen) Xc) posFree
                (i + find_run X i 1 clen) of
           (X', Xc', posFree') \<Rightarrow>
             if cancelled log L then (L # log, Inl SolverCancelled)
             else scan_loop_probed cancelled L emit clen X' Xc' (i + find_run X i 1 clen) posFree'
                    (L # log))
      else (log, Inr (X, Xc, posFree)))"
  by pat_completeness auto
termination
  apply (relation "measure (\<lambda>(cancelled, L, emit, clen, X, Xc, i, posFree, log). length X - i)")
   apply simp
  subgoal for cancelled L emit clen X Xc i posFree log x xa y
    using find_run_ge[of 1 X i clen]
    by (auto dest!: store_back_length[OF sym])
  done

declare scan_loop_probed.simps [simp del]

text \<open>
  Step 3, \<^verbatim>\<open>for (int r = 1; r < K && X.size() > 0; r++)\<close>: sort, probe, scan, compact,
  \<^verbatim>\<open>hashLen -= CollisionByteLength; lenIndices *= 2;\<close>, probe. \<^verbatim>\<open>std::sort\<close> with
  \<^verbatim>\<open>CompareSR(len)\<close> is the parameter \<open>sortf len\<close>.
\<close>

function solve_rounds ::
  "cancel_probe \<Rightarrow> (nat \<Rightarrow> row list \<Rightarrow> row list) \<Rightarrow> (nat \<Rightarrow> nat \<Rightarrow> row \<Rightarrow> row \<Rightarrow> row option) \<Rightarrow>
   nat \<Rightarrow> nat \<Rightarrow> nat \<Rightarrow> row list \<Rightarrow> nat \<Rightarrow> nat \<Rightarrow> probe_log \<Rightarrow> (row list \<times> nat \<times> nat) solver_result" where
  "solve_rounds cancelled sortf emit clen K r X hashLen lenIndices log =
     (if r < K \<and> 0 < length X then
        if cancelled log ListSorting then (ListSorting # log, Inl SolverCancelled)
        else (case scan_loop_probed cancelled ListColliding (emit hashLen lenIndices) clen
                     (sortf clen X) [] 0 0 (ListSorting # log) of
                (log', Inl e) \<Rightarrow> (log', Inl e)
              | (log', Inr s) \<Rightarrow>
                  if cancelled log' RoundEnd then (RoundEnd # log', Inl SolverCancelled)
                  else solve_rounds cancelled sortf emit clen K (r + 1) (compact_end s)
                         (hashLen - clen) (lenIndices * 2) (RoundEnd # log'))
      else (log, Inr (X, hashLen, lenIndices)))"
  by pat_completeness auto
termination
  by (relation "measure (\<lambda>(cancelled, sortf, emit, clen, K, r, X, hashLen, lenIndices, log). K - r)") auto

declare solve_rounds.simps [simp del]

text \<open>
  The scan of the final round: every pair of a run is handed to \<open>add\<close>, which inserts
  into the solution set (\<^verbatim>\<open>BasicSolve\<close>) or appends to the partial solutions
  (\<^verbatim>\<open>OptimisedSolve\<close>).
\<close>

function final_loop ::
  "cancel_probe \<Rightarrow> (row \<Rightarrow> row \<Rightarrow> 'a \<Rightarrow> 'a) \<Rightarrow> row list \<Rightarrow> nat \<Rightarrow> nat \<Rightarrow> 'a \<Rightarrow> probe_log \<Rightarrow>
   'a solver_result" where
  "final_loop cancelled add X hashLen i acc log =
     (if i < length X - 1 then
        if cancelled log FinalColliding then (FinalColliding # log, Inl SolverCancelled)
        else final_loop cancelled add X hashLen (i + find_run X i 1 hashLen)
               (fold (\<lambda>l acc. fold (\<lambda>m acc. add (X ! (i + l)) (X ! (i + m)) acc) [l + 1..<find_run X i 1 hashLen] acc)
                  [0..<find_run X i 1 hashLen - 1] acc)
               (FinalColliding # log)
      else (log, Inr acc))"
  by pat_completeness auto
termination
  apply (relation "measure (\<lambda>(cancelled, add, X, hashLen, i, acc, log). length X - i)")
   apply simp
  subgoal for cancelled add X hashLen i acc log
    using find_run_ge[of 1 X i hashLen] by auto
  done

declare final_loop.simps [simp del]

definition final_round ::
  "cancel_probe \<Rightarrow> (nat \<Rightarrow> row list \<Rightarrow> row list) \<Rightarrow> (row \<Rightarrow> row \<Rightarrow> 'a \<Rightarrow> 'a) \<Rightarrow> row list \<Rightarrow> nat \<Rightarrow>
   'a \<Rightarrow> probe_log \<Rightarrow> 'a solver_result" where
  "final_round cancelled sortf add X hashLen acc log =
     (if 1 < length X then
        if cancelled log FinalSorting then (FinalSorting # log, Inl SolverCancelled)
        else final_loop cancelled add (sortf hashLen X) hashLen 0 acc (FinalSorting # log)
      else (log, Inr acc))"

section \<open>The basic solver\<close>

text \<open>What step 2c of \<^verbatim>\<open>BasicSolve\<close> does with a pair, and what its final round does.\<close>

definition basic_emit :: "nat \<Rightarrow> nat \<Rightarrow> nat \<Rightarrow> nat \<Rightarrow> row \<Rightarrow> row \<Rightarrow> row option" where
  "basic_emit FullWidth clen hashLen lenIndices a b =
     (if DistinctIndices a b hashLen lenIndices
      then Some (FullStepRow_merge FullWidth a b hashLen lenIndices clen) else None)"

definition basic_add :: "nat \<Rightarrow> nat \<Rightarrow> nat \<Rightarrow> row \<Rightarrow> row \<Rightarrow> eh_index list set \<Rightarrow> eh_index list set" where
  "basic_add FinalFullWidth hashLen lenIndices a b solns =
     (let res = FullStepRow_merge FinalFullWidth a b hashLen lenIndices 0
      in if DistinctIndices a b hashLen lenIndices
         then insert (GetIndices res hashLen (2 * lenIndices)) solns else solns)"

text \<open>
  \<^verbatim>\<open>BasicSolve\<close>. \<^verbatim>\<open>init_size\<close> is \<^verbatim>\<open>1 << (CollisionBitLength + 1)\<close>, and
  \<^verbatim>\<open>FullWidth\<close> and \<^verbatim>\<open>FinalFullWidth\<close> are declared in the header.
\<close>

definition BasicSolve ::
  "(nat \<Rightarrow> row list \<Rightarrow> row list) \<Rightarrow> nat \<Rightarrow> nat \<Rightarrow> nat \<Rightarrow> nat \<Rightarrow> eh_HashState \<Rightarrow> cancel_probe \<Rightarrow>
   eh_index list set solver_result" where
  "BasicSolve sortf N K FullWidth FinalFullWidth base_state cancelled =
     (case generate cancelled ListGeneration (FullStepRow_new FullWidth N K base_state)
             (map of_nat [0..<2 ^ (CollisionBitLength N K + 1)]) [] of
        (log, Inl e) \<Rightarrow> (log, Inl e)
      | (log, Inr X) \<Rightarrow>
          (case solve_rounds cancelled sortf (basic_emit FullWidth (CollisionByteLength N K))
                  (CollisionByteLength N K) K 1 X (ExpandedHashLength N K) 4 log of
             (log', Inl e) \<Rightarrow> (log', Inl e)
           | (log', Inr (X', hashLen, lenIndices)) \<Rightarrow>
               final_round cancelled sortf (basic_add FinalFullWidth hashLen lenIndices)
                 X' hashLen {} log'))"


section \<open>The optimised solver\<close>

text \<open>
  \<^verbatim>\<open>IsProbablyDuplicate\<close>: the array \<^verbatim>\<open>checked_index\<close> starts all false; the inner loop
  looks for the first unchecked \<open>y > z\<close> with the same value and marks both; the result is
  whether every position is marked.
\<close>

function ipd_inner :: "eh_trunc list \<Rightarrow> nat \<Rightarrow> nat \<Rightarrow> nat \<Rightarrow> bool list \<Rightarrow> bool list" where
  "ipd_inner indices lenIndices z y checked_index =
     (if y < lenIndices then
        if \<not> checked_index ! y \<and> indices ! z = indices ! y
        then checked_index[y := True, z := True]
        else ipd_inner indices lenIndices z (y + 1) checked_index
      else checked_index)"
  by pat_completeness auto
termination
  by (relation "measure (\<lambda>(indices, lenIndices, z, y, checked_index). lenIndices - y)") auto

declare ipd_inner.simps [simp del]

function ipd_outer :: "eh_trunc list \<Rightarrow> nat \<Rightarrow> nat \<Rightarrow> bool list \<Rightarrow> bool list" where
  "ipd_outer indices lenIndices z checked_index =
     (if z < lenIndices then
        ipd_outer indices lenIndices (z + 1)
          (if \<not> checked_index ! z then ipd_inner indices lenIndices z (z + 1) checked_index
           else checked_index)
      else checked_index)"
  by pat_completeness auto
termination
  by (relation "measure (\<lambda>(indices, lenIndices, z, checked_index). lenIndices - z)") auto

declare ipd_outer.simps [simp del]

definition IsProbablyDuplicate :: "eh_trunc list \<Rightarrow> nat \<Rightarrow> bool" where
  "IsProbablyDuplicate indices lenIndices =
     list_all (\<lambda>z. ipd_outer indices lenIndices 0 (replicate lenIndices False) ! z) [0..<lenIndices]"

text \<open>
  Step 2c of the truncated rounds. The flag \<^verbatim>\<open>checking_for_zero\<close> that the source computes
  there is never used.
\<close>

definition truncated_emit :: "nat \<Rightarrow> nat \<Rightarrow> nat \<Rightarrow> nat \<Rightarrow> row \<Rightarrow> row \<Rightarrow> row option" where
  "truncated_emit TruncatedWidth clen hashLen lenIndices a b =
     (let Xi = TruncatedStepRow_merge TruncatedWidth a b hashLen lenIndices clen
      in if \<not> (IsZero Xi (hashLen - clen) \<and>
                IsProbablyDuplicate (GetTruncatedIndices Xi (hashLen - clen) (2 * lenIndices))
                  (2 * lenIndices))
         then Some Xi else None)"

definition truncated_add :: "nat \<Rightarrow> nat \<Rightarrow> nat \<Rightarrow> row \<Rightarrow> row \<Rightarrow> eh_trunc list list \<Rightarrow> eh_trunc list list" where
  "truncated_add FinalTruncatedWidth hashLen lenIndices a b partialSolns =
     partialSolns @
       [GetTruncatedIndices (TruncatedStepRow_merge FinalTruncatedWidth a b hashLen lenIndices 0)
          hashLen (2 * lenIndices)]"

text \<open>
  Modelled from the spec: \<^verbatim>\<open>IsValidBranch\<close> is declared in the header. The spec: the
  truncation of the first index of the row's history matches the expected truncated index.
\<close>

definition IsValidBranch :: "row \<Rightarrow> nat \<Rightarrow> nat \<Rightarrow> eh_trunc \<Rightarrow> bool" where
  "IsValidBranch a len ilen t = (TruncateIndex (ArrayToEhIndex (drop len a)) ilen = t)"

definition branch_emit :: "nat \<Rightarrow> nat \<Rightarrow> nat \<Rightarrow> nat \<Rightarrow> nat \<Rightarrow> eh_trunc \<Rightarrow> eh_trunc \<Rightarrow> row \<Rightarrow> row \<Rightarrow> row option" where
  "branch_emit WIDTH hlen lenIndices clen ilen lt rt a b =
     (if DistinctIndices a b hlen lenIndices then
        if IsValidBranch a hlen ilen lt \<and> IsValidBranch b hlen ilen rt
        then Some (FullStepRow_merge WIDTH a b hlen lenIndices clen)
        else if IsValidBranch b hlen ilen lt \<and> IsValidBranch a hlen ilen rt
        then Some (FullStepRow_merge WIDTH b a hlen lenIndices clen)
        else None
      else None)"

definition CollideBranches :: "nat \<Rightarrow> row list \<Rightarrow> nat \<Rightarrow> nat \<Rightarrow> nat \<Rightarrow> nat \<Rightarrow> eh_trunc \<Rightarrow> eh_trunc \<Rightarrow> row list" where
  "CollideBranches WIDTH X hlen lenIndices clen ilen lt rt =
     compact_end (scan_loop (branch_emit WIDTH hlen lenIndices clen ilen lt rt) clen X [] 0 0)"

text \<open>
  The loop \<^verbatim>\<open>for (size_t r = 0; r <= K; r++)\<close> of the second phase, on the vector \<open>X\<close> of
  optional lists and the current list \<open>ic\<close>. It ends with \<open>None\<close> at
  \<^verbatim>\<open>goto invalidsolution\<close>, and otherwise with the vector, \<^verbatim>\<open>hashLen\<close> and \<^verbatim>\<open>lenIndices\<close> as
  they are at its \<^verbatim>\<open>break\<close> or at its end. \<^verbatim>\<open>rti-(1<<r)\<close> is unsigned; the subtraction
  does not wrap, since bit \<open>r\<close> of \<open>rti\<close> is set whenever \<^verbatim>\<open>X[r]\<close> is occupied.
\<close>

function subtree_loop ::
  "cancel_probe \<Rightarrow> (nat \<Rightarrow> row list \<Rightarrow> row list) \<Rightarrow> nat \<Rightarrow> nat \<Rightarrow> nat \<Rightarrow> eh_trunc list \<Rightarrow>
   row list option list \<Rightarrow> row list \<Rightarrow> nat \<Rightarrow> nat \<Rightarrow> nat \<Rightarrow> nat \<Rightarrow> probe_log \<Rightarrow>
   (row list option list \<times> nat \<times> nat) option solver_result" where
  "subtree_loop cancelled sortf N K WIDTH partialSoln X ic hashLen lenIndices rti r log =
     (if r \<le> K then
        if r < length X then
          (case X ! r of
             Some Xr \<Rightarrow>
               if cancelled log PartialSorting then (PartialSorting # log, Inl SolverCancelled)
               else (case CollideBranches WIDTH (sortf hashLen (ic @ Xr)) hashLen lenIndices
                            (CollisionByteLength N K) (CollisionBitLength N K + 1)
                            (partialSoln ! (rti - 2 ^ r)) (partialSoln ! rti) of
                       [] \<Rightarrow> (PartialSorting # log, Inr None)
                     | x # xs \<Rightarrow>
                         if cancelled (PartialSorting # log) PartialSubtreeEnd
                         then (PartialSubtreeEnd # PartialSorting # log, Inl SolverCancelled)
                         else subtree_loop cancelled sortf N K WIDTH partialSoln (X[r := None]) (x # xs)
                                (hashLen - CollisionByteLength N K) (lenIndices * 2) (rti - 2 ^ r)
                                (r + 1) (PartialSubtreeEnd # PartialSorting # log))
           | None \<Rightarrow> (log, Inr (Some (X[r := Some ic], hashLen, lenIndices))))
        else (log, Inr (Some (X @ [Some ic], hashLen, lenIndices)))
      else (log, Inr (Some (X, hashLen, lenIndices))))"
  by pat_completeness auto
termination
  by (relation "measure (\<lambda>(cancelled, sortf, N, K, WIDTH, partialSoln, X, ic, hashLen, lenIndices, rti, r, log). Suc K - r)") auto

declare subtree_loop.simps [simp del]

text \<open>
  Step 3 of the second phase, \<^verbatim>\<open>for (eh_index i = 0; i < soln_size; i++)\<close>, over the
  positions \<open>is\<close> still to do: the candidates for position \<open>i\<close>, the loop over \<open>r\<close>, the
  probe. \<^verbatim>\<open>hashLen\<close> and \<^verbatim>\<open>lenIndices\<close> are declared outside this loop and keep the values
  of its last pass.
\<close>

fun index_loop ::
  "cancel_probe \<Rightarrow> (nat \<Rightarrow> row list \<Rightarrow> row list) \<Rightarrow> nat \<Rightarrow> nat \<Rightarrow> nat \<Rightarrow> eh_HashState \<Rightarrow> eh_trunc list \<Rightarrow>
   nat list \<Rightarrow> row list option list \<Rightarrow> nat \<Rightarrow> nat \<Rightarrow> probe_log \<Rightarrow>
   (row list option list \<times> nat \<times> nat) option solver_result" where
  "index_loop cancelled sortf N K WIDTH base_state partialSoln [] X hashLen lenIndices log =
     (log, Inr (Some (X, hashLen, lenIndices)))"
| "index_loop cancelled sortf N K WIDTH base_state partialSoln (i # is) X hashLen lenIndices log =
     (case generate cancelled PartialGeneration (FullStepRow_new WIDTH N K base_state)
             (map (\<lambda>j. UntruncateIndex (partialSoln ! i) (of_nat j) (CollisionBitLength N K + 1))
                [0..<unat (UntruncateIndex 1 0 (CollisionBitLength N K + 1))]) log of
        (log1, Inl e) \<Rightarrow> (log1, Inl e)
      | (log1, Inr icv) \<Rightarrow>
          (case subtree_loop cancelled sortf N K WIDTH partialSoln X icv (ExpandedHashLength N K) 4 i 0 log1 of
             (log2, Inl e) \<Rightarrow> (log2, Inl e)
           | (log2, Inr None) \<Rightarrow> (log2, Inr None)
           | (log2, Inr (Some (X', hashLen', lenIndices'))) \<Rightarrow>
               if cancelled log2 PartialIndexEnd then (PartialIndexEnd # log2, Inl SolverCancelled)
               else index_loop cancelled sortf N K WIDTH base_state partialSoln is X' hashLen' lenIndices'
                      (PartialIndexEnd # log2)))"

text \<open>
  The loop over the partial solutions. After the positions of one of them:
  \<^verbatim>\<open>assert(X.size() == K+1)\<close>, every row of \<^verbatim>\<open>*X[K]\<close> gives a solution, probe. An empty
  \<^verbatim>\<open>X[K]\<close> is undefined in C++ and is the fault \<open>OutOfBounds\<close>.
\<close>

fun partial_loop ::
  "cancel_probe \<Rightarrow> (nat \<Rightarrow> row list \<Rightarrow> row list) \<Rightarrow> nat \<Rightarrow> nat \<Rightarrow> nat \<Rightarrow> eh_HashState \<Rightarrow>
   eh_trunc list list \<Rightarrow> eh_index list set \<Rightarrow> probe_log \<Rightarrow> eh_index list set solver_result" where
  "partial_loop cancelled sortf N K WIDTH base_state [] solns log = (log, Inr solns)"
| "partial_loop cancelled sortf N K WIDTH base_state (partialSoln # rest) solns log =
     (case index_loop cancelled sortf N K WIDTH base_state partialSoln [0..<2 ^ K] [] 0 0 log of
        (log1, Inl e) \<Rightarrow> (log1, Inl e)
      | (log1, Inr None) \<Rightarrow> partial_loop cancelled sortf N K WIDTH base_state rest solns log1
      | (log1, Inr (Some (X, hashLen, lenIndices))) \<Rightarrow>
          if length X \<noteq> K + 1 then (log1, Inl (SolverFault AssertionFailure))
          else (case X ! K of
                  None \<Rightarrow> (log1, Inl (SolverFault OutOfBounds))
                | Some rows \<Rightarrow>
                    if cancelled log1 PartialEnd then (PartialEnd # log1, Inl SolverCancelled)
                    else partial_loop cancelled sortf N K WIDTH base_state rest
                           (fold (\<lambda>row solns. insert (GetIndices row hashLen lenIndices) solns) rows solns)
                           (PartialEnd # log1)))"

text \<open>
  \<^verbatim>\<open>OptimisedSolve\<close>: the first phase on truncated rows, then the second phase on its
  partial solutions. \<^verbatim>\<open>TruncatedWidth\<close>, \<^verbatim>\<open>FinalTruncatedWidth\<close> and \<^verbatim>\<open>FinalFullWidth\<close> are
  declared in the header.
\<close>

definition OptimisedSolve ::
  "(nat \<Rightarrow> row list \<Rightarrow> row list) \<Rightarrow> nat \<Rightarrow> nat \<Rightarrow> nat \<Rightarrow> nat \<Rightarrow> nat \<Rightarrow> eh_HashState \<Rightarrow> cancel_probe \<Rightarrow>
   eh_index list set solver_result" where
  "OptimisedSolve sortf N K TruncatedWidth FinalTruncatedWidth FinalFullWidth base_state cancelled =
     (case generate cancelled ListGeneration
             (\<lambda>i. TruncatedStepRow_new TruncatedWidth N K base_state i (CollisionBitLength N K + 1))
             (map of_nat [0..<2 ^ (CollisionBitLength N K + 1)]) [] of
        (log, Inl e) \<Rightarrow> (log, Inl e)
      | (log, Inr Xt) \<Rightarrow>
          (case solve_rounds cancelled sortf (truncated_emit TruncatedWidth (CollisionByteLength N K))
                  (CollisionByteLength N K) K 1 Xt (ExpandedHashLength N K) 1 log of
             (log', Inl e) \<Rightarrow> (log', Inl e)
           | (log', Inr (Xt', hashLen, lenIndices)) \<Rightarrow>
               (case final_round cancelled sortf (truncated_add FinalTruncatedWidth hashLen lenIndices)
                       Xt' hashLen [] log' of
                  (log'', Inl e) \<Rightarrow> (log'', Inl e)
                | (log'', Inr partialSolns) \<Rightarrow>
                    partial_loop cancelled sortf N K FinalFullWidth base_state partialSolns {} log'')))"

section \<open>The round as a fresh list, and the sort\<close>

text \<open>
  The round as the spec words it, on an immutable list: for each maximal run of rows
  that collide with its first row, the rows emitted for every pair \<open>l < m\<close> of the run, in
  a fresh list.
\<close>

fun all_pairs :: "(row \<Rightarrow> row \<Rightarrow> row option) \<Rightarrow> row list \<Rightarrow> row list" where
  "all_pairs emit [] = []"
| "all_pairs emit (x # xs) = List.map_filter (emit x) xs @ all_pairs emit xs"

function merges_of_runs :: "(row \<Rightarrow> row \<Rightarrow> row option) \<Rightarrow> nat \<Rightarrow> row list \<Rightarrow> row list" where
  "merges_of_runs emit clen [] = []"
| "merges_of_runs emit clen (x # xs) =
     all_pairs emit (x # takeWhile (\<lambda>y. HasCollision x y clen) xs) @
     merges_of_runs emit clen (dropWhile (\<lambda>y. HasCollision x y clen) xs)"
  by pat_completeness auto
termination
  by (relation "measure (\<lambda>(emit, clen, X). length X)") (auto simp: length_dropWhile_le less_Suc_eq_le)

text \<open>
  Modelled from the spec: \<^verbatim>\<open>CompareSR\<close> is declared in the header. The spec: the
  lexicographic unsigned comparison over the first \<open>len\<close> bytes.
\<close>

definition CompareSR :: "nat \<Rightarrow> row \<Rightarrow> row \<Rightarrow> bool" where
  "CompareSR len a b = lexordp (<) (take len a) (take len b)"

text \<open>
  \<^verbatim>\<open>std::sort\<close> returns some permutation of its input that is ordered by the comparator;
  which one is not specified. \<open>std_sort_spec\<close> is this contract, and insertion sort is one
  function that meets it.
\<close>

definition std_sort_spec :: "(nat \<Rightarrow> row list \<Rightarrow> row list) \<Rightarrow> bool" where
  "std_sort_spec sortf =
     (\<forall>len X. mset (sortf len X) = mset X \<and> sorted_wrt (\<lambda>a b. \<not> CompareSR len b a) (sortf len X))"

fun insert_row :: "nat \<Rightarrow> row \<Rightarrow> row list \<Rightarrow> row list" where
  "insert_row len x [] = [x]"
| "insert_row len x (y # ys) =
     (if CompareSR len x y then x # y # ys else y # insert_row len x ys)"

definition insertion_sort :: "nat \<Rightarrow> row list \<Rightarrow> row list" where
  "insertion_sort len X = foldr (insert_row len) X []"

text \<open>
  For the proof about \<^verbatim>\<open>IsProbablyDuplicate\<close>: the values at the positions from \<open>a\<close> up
  to \<open>b\<close> that are not marked in \<^verbatim>\<open>checked_index\<close>, and the lists in which every value
  occurs an even number of times.
\<close>

definition unmarked :: "eh_trunc list \<Rightarrow> bool list \<Rightarrow> nat \<Rightarrow> nat \<Rightarrow> eh_trunc list" where
  "unmarked indices chk a b = map (\<lambda>p. indices ! p) (filter (\<lambda>p. \<not> chk ! p) [a..<b])"

definition pairable :: "eh_trunc list \<Rightarrow> bool" where
  "pairable xs = (\<forall>v. even (count_list xs v))"

section \<open>Rows that the verifier rebuilds\<close>

text \<open>Two rows agree on their first \<open>n\<close> bytes.\<close>

definition agree :: "nat \<Rightarrow> row \<Rightarrow> row \<Rightarrow> bool" where
  "agree n r r' = (take n r = take n r')"

text \<open>
  \<open>walk_n\<close> runs the verifier's outer loop for \<open>n\<close> levels and gives the state it
  reaches; \<open>None\<close> when a pair is rejected, a read leaves the list, or the list runs out.
\<close>

fun walk_n :: "nat \<Rightarrow> nat \<Rightarrow> nat \<Rightarrow> row list \<times> nat \<times> nat \<Rightarrow> (row list \<times> nat \<times> nat) option" where
  "walk_n WIDTH clen 0 s = Some s"
| "walk_n WIDTH clen (Suc n) s =
     (case level_step WIDTH clen s of
        Inr (Some s') \<Rightarrow> walk_n WIDTH clen n s'
      | _ \<Rightarrow> None)"

text \<open>
  A row of the solver at level \<open>lev\<close> is \<open>derived\<close> when the verifier, started from the
  leaves of the row's own index history, reaches after \<open>lev\<close> levels one row that agrees
  with it on the hash bytes and the history.
\<close>

definition derived :: "nat \<Rightarrow> nat \<Rightarrow> nat \<Rightarrow> eh_HashState \<Rightarrow> nat \<Rightarrow> row \<Rightarrow> bool" where
  "derived N K WIDTH base_state lev r =
     (\<exists>r'. walk_n WIDTH (CollisionByteLength N K) lev
             (map (FullStepRow_new WIDTH N K base_state)
                (GetIndices r (ExpandedHashLength N K - lev * CollisionByteLength N K) (4 * 2 ^ lev)),
              ExpandedHashLength N K, 4) =
           Some ([r'], ExpandedHashLength N K - lev * CollisionByteLength N K, 4 * 2 ^ lev) \<and>
          agree (ExpandedHashLength N K - lev * CollisionByteLength N K + 4 * 2 ^ lev) r' r \<and>
          length r' = WIDTH \<and>
          ExpandedHashLength N K - lev * CollisionByteLength N K + 4 * 2 ^ lev \<le> length r)"

text \<open>
  The widths are template parameters fixed in the header. The rows of level \<open>lev\<close> hold
  \<open>ExpandedHashLength - lev * CollisionByteLength\<close> hash bytes and \<open>2 ^ lev\<close> indices of four
  bytes; these predicates say that the arrays are wide enough for them, in the verifier
  (all levels in \<open>FinalFullWidth\<close>) and in the basic solver (the levels below \<open>K\<close> in
  \<open>FullWidth\<close>, the last merge in \<open>FinalFullWidth\<close>).
\<close>

definition verifier_widths_ok :: "nat \<Rightarrow> nat \<Rightarrow> nat \<Rightarrow> bool" where
  "verifier_widths_ok N K WIDTH =
     list_all (\<lambda>lev. ExpandedHashLength N K - lev * CollisionByteLength N K + 4 * 2 ^ lev \<le> WIDTH)
       [0..<K + 1]"

definition basic_widths_ok :: "nat \<Rightarrow> nat \<Rightarrow> nat \<Rightarrow> nat \<Rightarrow> bool" where
  "basic_widths_ok N K FullWidth FinalFullWidth =
     (FullWidth \<le> FinalFullWidth \<and>
      list_all (\<lambda>lev. ExpandedHashLength N K - lev * CollisionByteLength N K + 4 * 2 ^ lev \<le> FullWidth)
        [0..<K] \<and>
      2 * CollisionByteLength N K + 4 * 2 ^ K \<le> FinalFullWidth)"

section \<open>Facts about rows\<close>

lemma fold_upd_length [simp]: "length (fold (\<lambda>k h. h[g k := f k h]) ks h) = length h"
  by (induction ks arbitrary: h) auto

lemma fold_upd_nth:
  "lo \<le> hi \<Longrightarrow> d + (hi - lo) \<le> length h \<Longrightarrow>
   fold (\<lambda>k h. h[d + (k - lo) := f k]) [lo..<hi] h ! p =
     (if d \<le> p \<and> p < d + (hi - lo) then f (lo + (p - d)) else h ! p)"
proof (induction hi)
  case 0
  then show ?case by auto
next
  case (Suc hi)
  show ?case
  proof (cases "lo = Suc hi")
    case True
    then show ?thesis by auto
  next
    case False
    with Suc.prems have le: "lo \<le> hi" by simp
    have "d + (hi - lo) \<le> length h" using Suc.prems le by simp
    note IH = Suc.IH[OF le this]
    have "d + (hi - lo) < length h" using Suc.prems le by simp 
    then show ?thesis using le IH
      by (auto simp: nth_list_update Suc_diff_le)
  qed
qed

lemma std_copy_length [simp]: "length (std_copy src first fin dst d) = length dst"
  by (simp add: std_copy_def)

lemma std_copy_nth:
  "first \<le> fin \<Longrightarrow> d + (fin - first) \<le> length dst \<Longrightarrow>
   std_copy src first fin dst d ! p =
     (if d \<le> p \<and> p < d + (fin - first) then src ! (first + (p - d)) else dst ! p)"
  unfolding std_copy_def by (rule fold_upd_nth)

lemma xor_loop_nth:
  "trim \<le> len \<Longrightarrow> len - trim \<le> length h \<Longrightarrow>
   fold (\<lambda>i h. h[i - trim := a ! i XOR b ! i]) [trim..<len] h ! p =
     (if p < len - trim then a ! (trim + p) XOR b ! (trim + p) else h ! p)"
  using fold_upd_nth[of trim len 0 h "\<lambda>i. a ! i XOR b ! i" p] by simp

lemma StepRow_copy_length [simp]: "length (StepRow_copy WIDTH a) = WIDTH"
  by (simp add: StepRow_copy_def)

lemma StepRow_merge_length [simp]: "length (StepRow_merge ib WIDTH a b len li trim) = WIDTH"
  by (simp add: StepRow_merge_def Let_def)

lemma StepRow_merge_nth:
  assumes "merge_widths_ok W WIDTH len li trim" "p < len - trim + 2 * li"
  shows "StepRow_merge ib WIDTH a b len li trim ! p =
    (if p < len - trim then a ! (trim + p) XOR b ! (trim + p)
     else if p < len - trim + li then (if ib a b len li then a else b) ! (len + (p - (len - trim)))
     else (if ib a b len li then b else a) ! (len + (p - (len - trim + li))))"
  using assms
  by (auto simp: StepRow_merge_def Let_def std_copy_nth xor_loop_nth merge_widths_ok_def)

lemma StepRow_merge_history:
  assumes ok: "merge_widths_ok (length a) WIDTH len li trim" and lb: "length b = length a"
  shows "take (2 * li) (drop (len - trim) (StepRow_merge ib WIDTH a b len li trim)) =
    (if ib a b len li then take li (drop len a) @ take li (drop len b)
     else take li (drop len b) @ take li (drop len a))"
proof (rule nth_equalityI)
  show "length (take (2 * li) (drop (len - trim) (StepRow_merge ib WIDTH a b len li trim))) =
    length (if ib a b len li then take li (drop len a) @ take li (drop len b)
     else take li (drop len b) @ take li (drop len a))"
    using ok lb unfolding merge_widths_ok_def by auto
next
  fix i assume "i < length (take (2 * li) (drop (len - trim) (StepRow_merge ib WIDTH a b len li trim)))"
  then have i: "i < 2 * li" by simp
  have la: "len + li \<le> length a" "trim \<le> len" "len - trim + 2 * li \<le> WIDTH"
    using ok unfolding merge_widths_ok_def by auto
  define c where "c = StepRow_merge ib WIDTH a b len li trim"
  define q where "q = len - trim"
  have lc: "length c = WIDTH" by (simp add: c_def)
  have "q + i < len - trim + 2 * li" using i by (simp add: q_def)
  from StepRow_merge_nth[OF ok this, of ib a b]
  have n: "c ! (q + i) = (if i < li then (if ib a b len li then a else b) ! (len + i)
      else (if ib a b len li then b else a) ! (len + (i - li)))"
    unfolding c_def[symmetric] q_def[symmetric] by (simp add: q_def)
  have l: "take (2 * li) (drop q c) ! i = c ! (q + i)"
    using i la lc by (simp add: q_def)
  have r: "(if ib a b len li then take li (drop len a) @ take li (drop len b)
     else take li (drop len b) @ take li (drop len a)) ! i =
     (if i < li then (if ib a b len li then a else b) ! (len + i)
      else (if ib a b len li then b else a) ! (len + (i - li)))"
    using i la lb by (auto simp: nth_append)
  show "take (2 * li) (drop (len - trim) (StepRow_merge ib WIDTH a b len li trim)) ! i =
    (if ib a b len li then take li (drop len a) @ take li (drop len b)
     else take li (drop len b) @ take li (drop len a)) ! i"
    unfolding c_def[symmetric] q_def[symmetric] using l n r by simp
qed

lemma unat_be:
  fixes a b c d :: byte
  shows "unat (push_bit 24 (ucast a :: eh_index) OR push_bit 16 (ucast b) OR push_bit 8 (ucast c) OR ucast d) =
         unat a * 2 ^ 24 + unat b * 2 ^ 16 + unat c * 2 ^ 8 + unat d"
proof -
  define A :: eh_index where "A = push_bit 24 (ucast a)"
  define B :: eh_index where "B = push_bit 16 (ucast b)"
  define C :: eh_index where "C = push_bit 8 (ucast c)"
  define D :: eh_index where "D = ucast d"
  have 1: "C + D = C OR D"
    by (rule disjunctive_add) (auto simp: C_def D_def bit_simps dest: bit_imp_le_length)
  have 2: "B + (C OR D) = B OR (C OR D)"
    by (rule disjunctive_add) (auto simp: B_def C_def D_def bit_simps dest: bit_imp_le_length)
  have 3: "A + (B OR (C OR D)) = A OR (B OR (C OR D))"
    by (rule disjunctive_add) (auto simp: A_def B_def C_def D_def bit_simps dest: bit_imp_le_length)
  have s: "A OR B OR C OR D = A + (B + (C + D))"
    by (simp add: 1 2 3 ac_simps)
  have ua: "unat a < 256" "unat b < 256" "unat c < 256" "unat d < 256"
    using unsigned_less[of a, where 'a = nat] unsigned_less[of b, where 'a = nat]
      unsigned_less[of c, where 'a = nat] unsigned_less[of d, where 'a = nat] by simp_all
  have w: "A = word_of_nat (unat a * 2 ^ 24)" "B = word_of_nat (unat b * 2 ^ 16)"
    "C = word_of_nat (unat c * 2 ^ 8)" "D = word_of_nat (unat d)"
    by (simp_all add: A_def B_def C_def D_def push_bit_eq_mult)
  define N where "N = unat a * 2 ^ 24 + unat b * 2 ^ 16 + unat c * 2 ^ 8 + unat d"
  have e: "A + (B + (C + D)) = word_of_nat N"
    unfolding w N_def by simp
  have "N < 2 ^ 32"
    using ua by (simp add: N_def)
  then have "unat (word_of_nat N :: eh_index) = N"
    by (simp add: unat_of_nat)
  then show ?thesis
    unfolding A_def[symmetric] B_def[symmetric] C_def[symmetric] D_def[symmetric] s e
    by (simp only: N_def)
qed

lemma ArrayToEhIndex_less_iff:
  "ArrayToEhIndex p < ArrayToEhIndex q \<longleftrightarrow>
     p ! 0 < q ! 0 \<or> p ! 0 = q ! 0 \<and> (p ! 1 < q ! 1 \<or> p ! 1 = q ! 1 \<and>
       (p ! 2 < q ! 2 \<or> p ! 2 = q ! 2 \<and> p ! 3 < q ! 3))"
proof -
  have b: "unat (p ! 0) < 256" "unat (p ! 1) < 256" "unat (p ! 2) < 256" "unat (p ! 3) < 256"
    "unat (q ! 0) < 256" "unat (q ! 1) < 256" "unat (q ! 2) < 256" "unat (q ! 3) < 256"
    using unsigned_less[of "p ! 0", where 'a = nat] unsigned_less[of "p ! 1", where 'a = nat]
      unsigned_less[of "p ! 2", where 'a = nat] unsigned_less[of "p ! 3", where 'a = nat]
      unsigned_less[of "q ! 0", where 'a = nat] unsigned_less[of "q ! 1", where 'a = nat]
      unsigned_less[of "q ! 2", where 'a = nat] unsigned_less[of "q ! 3", where 'a = nat]
    by simp_all
  show ?thesis
    unfolding ArrayToEhIndex_def word_less_nat_alt unat_be word_unat_eq_iff
    using b by auto
qed

lemma upt_4: "4 \<le> n \<Longrightarrow> [0..<n] = 0 # 1 # 2 # 3 # [4..<n]"
  by (simp add: upt_rec[of 0] upt_rec[of 1] upt_rec[of 2] upt_rec[of 3] numeral_eq_Suc upt_rec[of "Suc 0"] upt_rec[of "Suc (Suc 0)"] upt_rec[of "Suc (Suc (Suc 0))"])

lemma memcmp_less_leftmost:
  assumes "4 \<le> n" "ArrayToEhIndex p \<noteq> ArrayToEhIndex q"
  shows "memcmp_less p q n = (ArrayToEhIndex p < ArrayToEhIndex q)"
proof -
  have ne: "\<not> (p ! 0 = q ! 0 \<and> p ! 1 = q ! 1 \<and> p ! 2 = q ! 2 \<and> p ! 3 = q ! 3)"
    using assms(2) by (auto simp: ArrayToEhIndex_def)
  show ?thesis
    unfolding memcmp_less_def upt_4[OF assms(1)] ArrayToEhIndex_less_iff
    using ne by auto
qed

lemma memcmp_less_first:
  assumes "0 < n" "p ! 0 \<noteq> q ! 0"
  shows "memcmp_less p q n = (p ! 0 < q ! 0)"
  using assms by (auto simp: memcmp_less_def upt_rec[of 0])

lemma memcmp_less_asym: "memcmp_less p q n \<Longrightarrow> \<not> memcmp_less q p n"
  unfolding memcmp_less_def using lexordp_antisym by blast

lemma memcmp_less_irrefl: "\<not> memcmp_less p p n"
  by (simp add: memcmp_less_def lexordp_irreflexive')

lemma memcmp_less_take:
  "n \<le> length p \<Longrightarrow> n \<le> length q \<Longrightarrow>
   memcmp_less p q n = ord_class.lexordp (take n p) (take n q)"
proof -
  have "map ((!) xs) [0..<n] = take n xs" if "n \<le> length xs" for xs :: "byte list"
    using that by (intro nth_equalityI) simp_all
  then show "n \<le> length p \<Longrightarrow> n \<le> length q \<Longrightarrow>
   memcmp_less p q n = ord_class.lexordp (take n p) (take n q)"
    by (simp add: memcmp_less_def)
qed

lemma memcmp_less_cong:
  "(\<And>j. j < n \<Longrightarrow> p ! j = p' ! j) \<Longrightarrow> (\<And>j. j < n \<Longrightarrow> q ! j = q' ! j) \<Longrightarrow>
   memcmp_less p q n = memcmp_less p' q' n"
proof -
  assume a: "\<And>j. j < n \<Longrightarrow> p ! j = p' ! j" and b: "\<And>j. j < n \<Longrightarrow> q ! j = q' ! j"
  have e1: "map ((!) p) [0..<n] = map ((!) p') [0..<n]" using a by (intro map_cong) simp_all
  have e2: "map ((!) q) [0..<n] = map ((!) q') [0..<n]" using b by (intro map_cong) simp_all
  show ?thesis unfolding memcmp_less_def e1 e2 by (rule refl)
qed

lemma Full_IndicesBefore_leftmost:
  assumes "4 \<le> lenIndices" "ArrayToEhIndex (drop len a) \<noteq> ArrayToEhIndex (drop len b)"
  shows "Full_IndicesBefore a b len lenIndices = (ArrayToEhIndex (drop len a) < ArrayToEhIndex (drop len b))"
  unfolding Full_IndicesBefore_def by (rule memcmp_less_leftmost[OF assms])

lemma Full_IndicesBefore_asym:
  "Full_IndicesBefore a b len lenIndices \<Longrightarrow> \<not> Full_IndicesBefore b a len lenIndices"
  unfolding Full_IndicesBefore_def by (rule memcmp_less_asym)

lemma Full_IndicesBefore_less:
  assumes "4 \<le> lenIndices" "ArrayToEhIndex (drop len a) < ArrayToEhIndex (drop len b)"
  shows "Full_IndicesBefore a b len lenIndices"
  using Full_IndicesBefore_leftmost[OF assms(1), of len a b] assms(2) by simp

lemma IndicesBefore_history:
  assumes "len + lenIndices \<le> length a" "len + lenIndices \<le> length b"
  shows "Full_IndicesBefore a b len lenIndices =
           ord_class.lexordp (take lenIndices (drop len a)) (take lenIndices (drop len b))"
    and "Truncated_IndicesBefore a b len lenIndices =
           ord_class.lexordp (take lenIndices (drop len a)) (take lenIndices (drop len b))"
  using assms by (simp_all add: Full_IndicesBefore_def Truncated_IndicesBefore_def memcmp_less_take)

lemma Truncated_IndicesBefore_leftmost:
  assumes "0 < lenIndices" "len < length a" "len < length b" "a ! len \<noteq> b ! len"
  shows "Truncated_IndicesBefore a b len lenIndices = (a ! len < b ! len)"
  using memcmp_less_first[OF assms(1), of "drop len a" "drop len b"] assms(2,3,4)
  by (simp add: Truncated_IndicesBefore_def)

section \<open>Facts about the verifier\<close>

lemma be_bytes:
  "push_bit 24 (ucast (ucast (drop_bit 24 i) :: byte) :: eh_index) OR
   push_bit 16 (ucast (ucast (drop_bit 16 i) :: byte)) OR
   push_bit 8 (ucast (ucast (drop_bit 8 i) :: byte)) OR ucast (ucast i :: byte) = i"
  apply (intro bit_word_eqI)
  subgoal for n
    apply (cases "n < 8"; cases "n < 16"; cases "n < 24")
           apply (auto simp: bit_simps)
    done
  done

lemma roundtrip_index: "ArrayToEhIndex (EhIndexToArray i @ rest) = i"
  by (simp add: ArrayToEhIndex_def EhIndexToArray_def be_bytes)

lemma StepRow_new_length [simp]: "length (StepRow_new WIDTH n k base_state i) = WIDTH"
  by (simp add: StepRow_new_def Let_def)

lemma FullStepRow_new_length [simp]: "length (FullStepRow_new WIDTH n k base_state i) = WIDTH"
  by (simp add: FullStepRow_new_def)

lemma FullStepRow_new_index_bytes:
  assumes "ExpandedHashLength n k + 4 \<le> WIDTH"
  shows "take 4 (drop (ExpandedHashLength n k) (FullStepRow_new WIDTH n k base_state i)) = EhIndexToArray i"
proof (rule nth_equalityI)
  show "length (take 4 (drop (ExpandedHashLength n k) (FullStepRow_new WIDTH n k base_state i))) = length (EhIndexToArray i)"
    using assms by (simp add: EhIndexToArray_def)
next
  fix p assume "p < length (take 4 (drop (ExpandedHashLength n k) (FullStepRow_new WIDTH n k base_state i)))"
  then have p: "p < 4" by simp
  then show "take 4 (drop (ExpandedHashLength n k) (FullStepRow_new WIDTH n k base_state i)) ! p = EhIndexToArray i ! p"
    using assms by (simp add: FullStepRow_new_def std_copy_nth)
qed

lemma ArrayToEhIndex_take: "ArrayToEhIndex (take 4 xs) = ArrayToEhIndex xs"
  by (simp add: ArrayToEhIndex_def)

lemma FullStepRow_new_leftmost:
  assumes "ExpandedHashLength n k + 4 \<le> WIDTH"
  shows "ArrayToEhIndex (drop (ExpandedHashLength n k) (FullStepRow_new WIDTH n k base_state i)) = i"
  using FullStepRow_new_index_bytes[OF assms, of base_state i] roundtrip_index[of i "[]"]
  by (metis ArrayToEhIndex_take append_Nil2)


lemma verify_pairs_no_fault:
  "even (length X - i) \<Longrightarrow> verify_pairs WIDTH clen X hashLen lenIndices i Xc \<noteq> Inl f"
proof (induction WIDTH clen X hashLen lenIndices i Xc rule: verify_pairs.induct)
  case (1 WIDTH clen X hashLen lenIndices i Xc)
  show ?case
  proof (cases "i < length X")
    case False
    then show ?thesis by (simp add: verify_pairs.simps)
  next
    case True
    with "1.prems" have b: "\<not> length X \<le> i + 1"
      by (cases "length X = i + 1") auto
    then have e: "even (length X - (i + 2))" using "1.prems" by simp
    show ?thesis
      using "1.IH" True b e
      by (subst verify_pairs.simps) auto
  qed
qed

lemma level_step_no_fault:
  "even (length (fst s)) \<Longrightarrow> level_step WIDTH clen s \<noteq> Inl f"
  using verify_pairs_no_fault[of "fst s" 0 WIDTH clen]
  by (auto simp: level_step_def split: prod.splits sum.splits option.splits)

lemma level_step_Some:
  assumes "level_step WIDTH clen s = Inr (Some s')"
  shows "length (fst s') = length (fst s) div 2 \<and> even (length (fst s)) \<and>
         fst (snd s') = fst (snd s) - clen \<and> snd (snd s') = snd (snd s) * 2"
proof -
  obtain X h l where s: "s = (X, h, l)" by (cases s)
  from assms s obtain Xc where "verify_pairs WIDTH clen X h l 0 [] = Inr (Some Xc)" "s' = (Xc, h - clen, l * 2)"
    by (auto simp: level_step_def split: sum.splits option.splits)
  with verify_pairs_length[of WIDTH clen X h l 0 "[]" Xc] s show ?thesis by auto
qed

lemma level_reached_size:
  assumes "level_reached WIDTH clen s0 j s" "length (fst s0) = 2 ^ K"
  shows "j \<le> K \<and> length (fst s) = 2 ^ (K - j) \<and>
         fst (snd s) = fst (snd s0) - j * clen \<and> snd (snd s) = snd (snd s0) * 2 ^ j"
  using assms
proof (induction rule: level_reached.induct)
  case start
  then show ?case by simp
next
  case (step j s s')
  then have IH: "j \<le> K" "length (fst s) = 2 ^ (K - j)"
    "fst (snd s) = fst (snd s0) - j * clen" "snd (snd s) = snd (snd s0) * 2 ^ j" by auto
  from step.hyps(2) IH(2) have "K - j \<noteq> 0" by (intro notI) simp
  then have lt: "j < K" by simp
  then have "K - j = Suc (K - Suc j)" by simp
  then have "(2::nat) ^ (K - j) div 2 = 2 ^ (K - Suc j)" by simp
  with level_step_Some[OF step.hyps(3)] IH lt show ?case by (simp add: algebra_simps)
qed

lemma verify_walk_no_fault:
  "length (fst s) = 2 ^ m \<Longrightarrow> \<exists>b. verify_walk WIDTH clen s = Inr b"
proof (induction m arbitrary: s)
  case 0
  then show ?case by (subst verify_walk.simps) simp
next
  case (Suc m)
  have p: "0 < (2::nat) ^ m" by simp
  from Suc.prems have l2: "length (fst s) = 2 * 2 ^ m" by simp
  from l2 p have gt: "1 < length (fst s)" by linarith
  from l2 have ev: "even (length (fst s))" by simp
  show ?case
  proof (cases "level_step WIDTH clen s")
    case (Inl f)
    with level_step_no_fault[OF ev] show ?thesis by blast
  next
    case (Inr r)
    show ?thesis
    proof (cases r)
      case None
      with Inr gt show ?thesis by (subst verify_walk.simps) auto
    next
      case (Some s')
      with Inr level_step_Some[of WIDTH clen s s'] Suc.prems have "length (fst s') = 2 ^ m" by simp
      from Suc.IH[OF this] Some Inr gt show ?thesis by (subst verify_walk.simps) auto
    qed
  qed
qed

text \<open>
  C10. For a solution of length \<open>2 ^ K\<close>: at the start of every level of the walk the list
  has a size that is a power of two, \<open>2 ^ (K - j)\<close> after \<open>j\<close> passes; no pass reads
  past the end of the list; the loop ends after exactly \<open>K\<close> passes, with one row; and the
  verifier returns a boolean, so the assertion holds.
\<close>

theorem verifier_walk_in_bounds:
  assumes "length soln = 2 ^ K"
  shows "(\<forall>j s. level_reached FinalFullWidth (CollisionByteLength N K)
                  (map (FullStepRow_new FinalFullWidth N K base_state) soln, ExpandedHashLength N K, 4) j s \<longrightarrow>
            j \<le> K \<and> length (fst s) = 2 ^ (K - j) \<and>
            (1 < length (fst s) \<longrightarrow> (\<forall>f. level_step FinalFullWidth (CollisionByteLength N K) s \<noteq> Inl f)) \<and>
            (length (fst s) \<le> 1 \<longrightarrow> j = K \<and> length (fst s) = 1)) \<and>
         (\<exists>b. IsValidSolution N K FinalFullWidth base_state soln = Inr b)"
proof (intro conjI allI)
  fix j s
  show "level_reached FinalFullWidth (CollisionByteLength N K)
                  (map (FullStepRow_new FinalFullWidth N K base_state) soln, ExpandedHashLength N K, 4) j s \<longrightarrow>
            j \<le> K \<and> length (fst s) = 2 ^ (K - j) \<and>
            (1 < length (fst s) \<longrightarrow> (\<forall>f. level_step FinalFullWidth (CollisionByteLength N K) s \<noteq> Inl f)) \<and>
            (length (fst s) \<le> 1 \<longrightarrow> j = K \<and> length (fst s) = 1)"
  proof (intro impI conjI allI)
  assume r: "level_reached FinalFullWidth (CollisionByteLength N K)
                  (map (FullStepRow_new FinalFullWidth N K base_state) soln, ExpandedHashLength N K, 4) j s"
  from level_reached_size[OF r, of K] assms
  have sz: "j \<le> K" "length (fst s) = 2 ^ (K - j)" by simp_all
  show "j \<le> K" by fact
  show "length (fst s) = 2 ^ (K - j)" by fact
  show "level_step FinalFullWidth (CollisionByteLength N K) s \<noteq> Inl f" if "1 < length (fst s)" for f
  proof (cases "K - j")
    case 0
    then show ?thesis using sz that by simp
  next
    case (Suc m)
    then have "even (length (fst s))" using sz by simp
    then show ?thesis by (rule level_step_no_fault)
  qed
  assume le: "length (fst s) \<le> 1"
  have "K - j = 0"
  proof (rule ccontr)
    assume "K - j \<noteq> 0"
    then have "(2::nat) ^ 1 \<le> 2 ^ (K - j)" by (intro power_increasing) simp_all
    with le sz show False by simp
  qed
  with sz show "j = K" by simp
  from \<open>K - j = 0\<close> sz show "length (fst s) = 1" by simp
  qed
next
  show "\<exists>b. IsValidSolution N K FinalFullWidth base_state soln = Inr b"
    using verify_walk_no_fault[of "(map (FullStepRow_new FinalFullWidth N K base_state) soln, ExpandedHashLength N K, 4)" K]
      assms by (simp add: IsValidSolution_def)
qed


theorem verifier_walk_in_bounds_witness:
  "length [1, 2 :: eh_index] = 2 ^ 1 \<and>
   length (fst (map (FullStepRow_new 10 16 1 (\<lambda>m p. 0)) [1, 2], ExpandedHashLength 16 1, 4 :: nat)) = 2 ^ (1 - 0) \<and>
   IsValidSolution 16 1 10 (\<lambda>m p. 0) [1, 2] = Inr True"
proof -
  have h: "length [1, 2 :: eh_index] = 2 ^ 1" by simp
  have v: "IsValidSolution 16 1 10 (\<lambda>m p. 0) [1, 2] = Inr True" by code_simp
  have r: "level_reached 10 (CollisionByteLength 16 1)
     (map (FullStepRow_new 10 16 1 (\<lambda>m p. 0)) [1, 2], ExpandedHashLength 16 1, 4) 0
     (map (FullStepRow_new 10 16 1 (\<lambda>m p. 0)) [1, 2], ExpandedHashLength 16 1, 4)"
    by (rule level_reached.start)
  from verifier_walk_in_bounds [OF h, of 10 16 "\<lambda>m p. 0"] r
  have "length (fst (map (FullStepRow_new 10 16 1 (\<lambda>m p. 0)) [1, 2], ExpandedHashLength 16 1, 4 :: nat)) = 2 ^ (1 - 0)"
    by blast
  with h v show ?thesis by blast
qed

lemma level_reached_walk:
  "level_reached WIDTH clen s0 j s \<Longrightarrow> verify_walk WIDTH clen s0 = verify_walk WIDTH clen s"
proof (induction rule: level_reached.induct)
  case start
  show ?case by simp
next
  case (step j s s')
  have "verify_walk WIDTH clen s = verify_walk WIDTH clen s'"
    using step.hyps(2,3) by (subst verify_walk.simps) simp
  with step.IH show ?case by simp
qed

lemma hd_GetIndices:
  "0 < lenIndices \<Longrightarrow> hd (GetIndices hash len lenIndices) = ArrayToEhIndex (drop len hash)"
proof -
  assume "0 < lenIndices"
  then have "0 < (lenIndices + 3) div 4" by simp
  then have "[0..<(lenIndices + 3) div 4] = 0 # [1..<(lenIndices + 3) div 4]"
    by (simp add: upt_conv_Cons)
  then show ?thesis by (simp add: GetIndices_def)
qed

lemma GetIndices_nonempty: "0 < lenIndices \<Longrightarrow> GetIndices hash len lenIndices \<noteq> []"
  by (simp add: GetIndices_def)

lemma same_leftmost_not_distinct:
  assumes "0 < lenIndices"
    and "hd (GetIndices a len lenIndices) = hd (GetIndices b len lenIndices)"
  shows "\<not> DistinctIndices a b len lenIndices"
proof -
  from assms(1) obtain x xs where a: "GetIndices a len lenIndices = x # xs"
    using GetIndices_nonempty[of lenIndices a len] by (cases "GetIndices a len lenIndices") auto
  from assms(1) obtain y ys where b: "GetIndices b len lenIndices = y # ys"
    using GetIndices_nonempty[of lenIndices b len] by (cases "GetIndices b len lenIndices") auto
  from assms(2) a b show ?thesis by (simp add: DistinctIndices_def)
qed

lemma verify_pairs_bad_pair:
  assumes "even (length X - i)" "even i" "i \<le> 2 * g" "2 * g + 1 < length X" "4 \<le> lenIndices"
    and "\<not> hd (GetIndices (X ! (2 * g)) hashLen lenIndices) < hd (GetIndices (X ! (2 * g + 1)) hashLen lenIndices)"
  shows "verify_pairs WIDTH clen X hashLen lenIndices i Xc = Inr None"
  using assms
proof (induction WIDTH clen X hashLen lenIndices i Xc rule: verify_pairs.induct)
  case (1 WIDTH clen X hashLen lenIndices i Xc)
  from "1.prems" have il: "i < length X" "\<not> length X \<le> i + 1" by auto
  show ?case
  proof (cases "i = 2 * g")
    case True
    show ?thesis
    proof (cases "Full_IndicesBefore (X ! (i + 1)) (X ! i) hashLen lenIndices")
      case True
      then show ?thesis using il by (subst verify_pairs.simps) simp
    next
      case False
      from "1.prems"(5) have li: "0 < lenIndices" by simp
      have "\<not> ArrayToEhIndex (drop hashLen (X ! (i + 1))) < ArrayToEhIndex (drop hashLen (X ! i))"
        using False Full_IndicesBefore_less[OF "1.prems"(5)] by blast
      with "1.prems"(6) \<open>i = 2 * g\<close> li
      have "hd (GetIndices (X ! i) hashLen lenIndices) = hd (GetIndices (X ! (i + 1)) hashLen lenIndices)"
        by (simp add: hd_GetIndices)
      from same_leftmost_not_distinct[OF li this]
      show ?thesis using il by (subst verify_pairs.simps) simp
    qed
  next
    case False
    with "1.prems" have le: "i + 2 \<le> 2 * g" by presburger
    have ev: "even (length X - (i + 2))" "even (i + 2)" using "1.prems" il by simp_all
    show ?thesis
      using "1.IH" il ev le "1.prems"(4,5,6)
      by (subst verify_pairs.simps) auto
  qed
qed

lemma GetIndices_new:
  assumes "ExpandedHashLength n k + 4 \<le> WIDTH"
  shows "GetIndices (FullStepRow_new WIDTH n k base_state i) (ExpandedHashLength n k) 4 = [i]"
  using FullStepRow_new_leftmost[OF assms] by (simp add: GetIndices_def)

lemma bad_pair_rejected:
  assumes len: "length soln = 2 ^ K"
    and r: "level_reached FinalFullWidth (CollisionByteLength N K)
         (map (FullStepRow_new FinalFullWidth N K base_state) soln, ExpandedHashLength N K, 4)
         j (X, hashLen, lenIndices)"
    and g: "2 * g + 1 < length X"
    and bad: "\<not> hd (GetIndices (X ! (2 * g)) hashLen lenIndices) < hd (GetIndices (X ! (2 * g + 1)) hashLen lenIndices)"
  shows "IsValidSolution N K FinalFullWidth base_state soln = Inr False"
proof -
  from level_reached_size[OF r, of K] len
  have sz: "length X = 2 ^ (K - j)" "lenIndices = 4 * 2 ^ j" by simp_all
  from sz(2) have li: "4 \<le> lenIndices" by simp
  from g sz(1) have "K - j \<noteq> 0" by (intro notI) simp
  then obtain m where "K - j = Suc m" by (cases "K - j") auto
  with sz(1) have ev: "even (length X - 0)" by simp
  from g have gt: "1 < length X" by simp
  have "verify_pairs FinalFullWidth (CollisionByteLength N K) X hashLen lenIndices 0 [] = Inr None"
    by (rule verify_pairs_bad_pair[OF ev _ _ g li bad]) simp_all
  then have "level_step FinalFullWidth (CollisionByteLength N K) (X, hashLen, lenIndices) = Inr None"
    by (simp add: level_step_def)
  with gt have "verify_walk FinalFullWidth (CollisionByteLength N K) (X, hashLen, lenIndices) = Inr False"
    by (subst verify_walk.simps) simp
  with level_reached_walk[OF r] len show ?thesis by (simp add: IsValidSolution_def)
qed

lemma valid_first_pair_ordered:
  assumes w: "ExpandedHashLength N K + 4 \<le> FinalFullWidth"
    and v: "IsValidSolution N K FinalFullWidth base_state (a # b # rest) = Inr True"
  shows "a < b"
proof -
  define X where "X = map (FullStepRow_new FinalFullWidth N K base_state) (a # b # rest)"
  have X01: "X ! 0 = FullStepRow_new FinalFullWidth N K base_state a"
    "X ! (0 + 1) = FullStepRow_new FinalFullWidth N K base_state b" "1 < length X" "0 < length X" "\<not> length X \<le> 0 + 1"
    by (simp_all add: X_def)
  from v have vw: "verify_walk FinalFullWidth (CollisionByteLength N K) (X, ExpandedHashLength N K, 4) = Inr True"
    by (simp add: IsValidSolution_def X_def split: if_splits)
  then obtain s' where "level_step FinalFullWidth (CollisionByteLength N K) (X, ExpandedHashLength N K, 4) = Inr (Some s')"
    using X01(3) by (subst (asm) verify_walk.simps) (auto split: sum.splits option.splits)
  then obtain Xc where "verify_pairs FinalFullWidth (CollisionByteLength N K) X (ExpandedHashLength N K) 4 0 [] = Inr (Some Xc)"
    by (auto simp: level_step_def split: sum.splits option.splits)
  then have c: "\<not> Full_IndicesBefore (X ! (0 + 1)) (X ! 0) (ExpandedHashLength N K) 4"
    "DistinctIndices (X ! 0) (X ! (0 + 1)) (ExpandedHashLength N K) 4"
    using X01(4,5) by (subst (asm) verify_pairs.simps; simp split: if_splits)+
  from c(1) have "\<not> b < a"
    unfolding X01
    using Full_IndicesBefore_less[of 4 "ExpandedHashLength N K"
        "FullStepRow_new FinalFullWidth N K base_state b" "FullStepRow_new FinalFullWidth N K base_state a"]
    by (auto simp: FullStepRow_new_leftmost[OF w])
  moreover from c(2) have "a \<noteq> b"
    unfolding X01 by (simp add: DistinctIndices_def GetIndices_new[OF w])
  ultimately show ?thesis by simp
qed

text \<open>
  C4. For a solution of length \<open>2 ^ K\<close>, the verifier returns false whenever, at a level
  it reaches, the leftmost index of some \<open>X[2g]\<close> is not strictly smaller than the
  leftmost index of \<open>X[2g+1]\<close>; in particular a valid solution with its first two indices
  swapped is rejected.
\<close>

theorem noncanonical_order_rejected:
  "(length soln = 2 ^ K \<and>
    level_reached FinalFullWidth (CollisionByteLength N K)
      (map (FullStepRow_new FinalFullWidth N K base_state) soln, ExpandedHashLength N K, 4)
      j (X, hashLen, lenIndices) \<and>
    2 * g + 1 < length X \<and>
    \<not> hd (GetIndices (X ! (2 * g)) hashLen lenIndices) < hd (GetIndices (X ! (2 * g + 1)) hashLen lenIndices)
    \<longrightarrow> IsValidSolution N K FinalFullWidth base_state soln = Inr False) \<and>
   (ExpandedHashLength N K + 4 \<le> FinalFullWidth \<and>
    IsValidSolution N K FinalFullWidth base_state (a # b # rest) = Inr True
    \<longrightarrow> IsValidSolution N K FinalFullWidth base_state (b # a # rest) = Inr False)"
proof (intro conjI impI)
  assume "length soln = 2 ^ K \<and>
    level_reached FinalFullWidth (CollisionByteLength N K)
      (map (FullStepRow_new FinalFullWidth N K base_state) soln, ExpandedHashLength N K, 4)
      j (X, hashLen, lenIndices) \<and>
    2 * g + 1 < length X \<and>
    \<not> hd (GetIndices (X ! (2 * g)) hashLen lenIndices) < hd (GetIndices (X ! (2 * g + 1)) hashLen lenIndices)"
  then show "IsValidSolution N K FinalFullWidth base_state soln = Inr False"
    using bad_pair_rejected by blast
next
  assume a: "ExpandedHashLength N K + 4 \<le> FinalFullWidth \<and>
    IsValidSolution N K FinalFullWidth base_state (a # b # rest) = Inr True"
  then have w: "ExpandedHashLength N K + 4 \<le> FinalFullWidth" and ab: "a < b"
    using valid_first_pair_ordered by blast+
  from a have len: "length (b # a # rest) = 2 ^ K"
    by (simp add: IsValidSolution_def split: if_splits)
  let ?X = "map (FullStepRow_new FinalFullWidth N K base_state) (b # a # rest)"
  have r: "level_reached FinalFullWidth (CollisionByteLength N K) (?X, ExpandedHashLength N K, 4) 0 (?X, ExpandedHashLength N K, 4)"
    by (rule level_reached.start)
  have g: "2 * 0 + 1 < length ?X" by simp
  have bad: "\<not> hd (GetIndices (?X ! (2 * 0)) (ExpandedHashLength N K) 4) < hd (GetIndices (?X ! (2 * 0 + 1)) (ExpandedHashLength N K) 4)"
    using ab by (simp add: GetIndices_new[OF w])
  show "IsValidSolution N K FinalFullWidth base_state (b # a # rest) = Inr False"
    by (rule bad_pair_rejected[OF len r g bad])
qed

theorem noncanonical_order_rejected_witness:
  "ExpandedHashLength 16 1 + 4 \<le> 10 \<and>
   IsValidSolution 16 1 10 (\<lambda>m p. 0) [1, 2] = Inr True \<and>
   IsValidSolution 16 1 10 (\<lambda>m p. 0) [2, 1] = Inr False"
proof -
  have w: "ExpandedHashLength 16 1 + 4 \<le> 10" by code_simp
  have v: "IsValidSolution 16 1 10 (\<lambda>m p. 0) [1, 2] = Inr True" by code_simp
  from noncanonical_order_rejected [of _ 1 10 16 "\<lambda>m p. 0" _ _ _ _ _ 1 2 "[]"] w v
  have "IsValidSolution 16 1 10 (\<lambda>m p. 0) [2, 1] = Inr False" by blast
  with w v show ?thesis by blast
qed
section \<open>Facts about the collision scan\<close>

lemma find_run_takeWhile:
  "i + j \<le> length X \<Longrightarrow>
   find_run X i j clen = j + length (takeWhile (\<lambda>y. HasCollision (X ! i) y clen) (drop (i + j) X))"
proof (induction X i j clen rule: find_run.induct)
  case (1 X i j clen)
  show ?case
  proof (cases "i + j < length X")
    case False
    then show ?thesis using "1.prems" by (subst find_run.simps) simp
  next
    case True
    then have d: "drop (i + j) X = X ! (i + j) # drop (i + (j + 1)) X"
      by (simp add: Cons_nth_drop_Suc)
    show ?thesis
    proof (cases "HasCollision (X ! i) (X ! (i + j)) clen")
      case c: True
      with True "1.IH" have "find_run X i (j + 1) clen =
          j + 1 + length (takeWhile (\<lambda>y. HasCollision (X ! i) y clen) (drop (i + (j + 1)) X))"
        by simp
      with c True d show ?thesis by (subst find_run.simps) simp
    next
      case False
      with True d show ?thesis by (subst find_run.simps) simp
    qed
  qed
qed

lemma find_run_bound: "i + j \<le> length X \<Longrightarrow> i + find_run X i j clen \<le> length X"
proof -
  assume a: "i + j \<le> length X"
  have "length (takeWhile (\<lambda>y. HasCollision (X ! i) y clen) (drop (i + j) X)) \<le> length (drop (i + j) X)"
    by (rule length_takeWhile_le)
  with a find_run_takeWhile[OF a, of clen] show ?thesis by simp
qed

lemma map_nth_upt_drop:
  "i + b \<le> length X \<Longrightarrow> a \<le> b \<Longrightarrow> map (\<lambda>m. X ! (i + m)) [a..<b] = take (b - a) (drop (i + a) X)"
  by (auto intro!: nth_equalityI simp: add.assoc)

lemma fold_emit_map_filter:
  "fold (\<lambda>y Xc. case f y of None \<Rightarrow> Xc | Some r \<Rightarrow> Xc @ [r]) ys Xc = Xc @ List.map_filter f ys"
  by (induction ys arbitrary: Xc) (auto simp: List.map_filter_simps split: option.splits)

lemma inner_pairs:
  assumes "i + j \<le> length X" "l < j"
  shows "fold (\<lambda>m Xc. case emit a (X ! (i + m)) of None \<Rightarrow> Xc | Some r \<Rightarrow> Xc @ [r]) [l + 1..<j] Xc =
         Xc @ List.map_filter (emit a) (drop (l + 1) (take j (drop i X)))"
proof -
  have "fold (\<lambda>m Xc. case emit a (X ! (i + m)) of None \<Rightarrow> Xc | Some r \<Rightarrow> Xc @ [r]) [l + 1..<j] Xc =
        fold (\<lambda>y Xc. case emit a y of None \<Rightarrow> Xc | Some r \<Rightarrow> Xc @ [r]) (map (\<lambda>m. X ! (i + m)) [l + 1..<j]) Xc"
    by (simp add: fold_map comp_def)
  also have "map (\<lambda>m. X ! (i + m)) [l + 1..<j] = take (j - (l + 1)) (drop (i + (l + 1)) X)"
    using assms by (intro map_nth_upt_drop) simp_all
  also have "\<dots> = drop (l + 1) (take j (drop i X))"
    using assms by (simp add: drop_take add.commute)
  finally show ?thesis by (simp add: fold_emit_map_filter)
qed

lemma all_pairs_fold:
  "fold (\<lambda>l Xc. Xc @ List.map_filter (emit (R ! l)) (drop (l + 1) R)) [0..<length R] Xc =
   Xc @ all_pairs emit R"
proof (induction R arbitrary: Xc)
  case Nil
  show ?case by simp
next
  case (Cons x R)
  have "[0..<length (x # R)] = 0 # map Suc [0..<length R]"
    by (simp add: upt_conv_Cons map_Suc_upt del: upt_Suc)
  then show ?case using Cons.IH by (simp add: fold_map comp_def)
qed

lemma all_pairs_fold':
  "fold (\<lambda>l Xc. Xc @ List.map_filter (emit (R ! l)) (drop (l + 1) R)) [0..<length R - 1] Xc =
   Xc @ all_pairs emit R"
proof (cases "R = []")
  case True
  then show ?thesis by simp
next
  case False
  then have "[0..<length R] = [0..<length R - 1] @ [length R - 1]"
    by (metis One_nat_def Suc_pred length_greater_0_conv upt_Suc_append zero_le)
  then have "fold (\<lambda>l Xc. Xc @ List.map_filter (emit (R ! l)) (drop (l + 1) R)) [0..<length R] Xc =
    fold (\<lambda>l Xc. Xc @ List.map_filter (emit (R ! l)) (drop (l + 1) R)) [0..<length R - 1] Xc"
    using False by (simp add: List.map_filter_simps)
  then show ?thesis using all_pairs_fold[of emit R Xc] by simp
qed

lemma collect_pairs_all_pairs:
  assumes "i + j \<le> length X"
  shows "collect_pairs emit X i j Xc = Xc @ all_pairs emit (take j (drop i X))"
proof -
  let ?R = "take j (drop i X)"
  have len: "length ?R = j" using assms by simp
  have "collect_pairs emit X i j Xc =
        fold (\<lambda>l Xc. Xc @ List.map_filter (emit (?R ! l)) (drop (l + 1) ?R)) [0..<j - 1] Xc"
    unfolding collect_pairs_def
  proof (rule fold_cong[OF refl refl])
    fix l assume "l \<in> set [0..<j - 1]"
    then have l: "l < j" by auto
    then have "?R ! l = X ! (i + l)" using assms by simp
    then show "(\<lambda>Xc. fold (\<lambda>m Xc. case emit (X ! (i + l)) (X ! (i + m)) of None \<Rightarrow> Xc | Some r \<Rightarrow> Xc @ [r]) [l + 1..<j] Xc) =
               (\<lambda>Xc. Xc @ List.map_filter (emit (?R ! l)) (drop (l + 1) ?R))"
      using inner_pairs[OF assms l] by (intro ext) simp
  qed
  with all_pairs_fold'[of emit ?R Xc] len show ?thesis by simp
qed


lemma store_back_closed:
  assumes "posFree \<le> length X" "bound \<le> length X"
  shows "store_back X Xc posFree bound =
     (take posFree X @ rev (drop (length Xc - min (bound - posFree) (length Xc)) Xc) @
        drop (posFree + min (bound - posFree) (length Xc)) X,
      take (length Xc - min (bound - posFree) (length Xc)) Xc,
      posFree + min (bound - posFree) (length Xc))"
  using assms
proof (induction X Xc posFree bound rule: store_back.induct)
  case (1 X Xc posFree bound)
  show ?case
  proof (cases "posFree < bound \<and> Xc \<noteq> []")
    case False
    then have "min (bound - posFree) (length Xc) = 0" by auto
    moreover from False have "store_back X Xc posFree bound = (X, Xc, posFree)"
      by (subst store_back.simps) auto
    ultimately show ?thesis by simp
  next
    case True
    define n1 where "n1 = min (bound - (posFree + 1)) (length (butlast Xc))"
    have n: "min (bound - posFree) (length Xc) = Suc n1"
      using True by (cases Xc rule: rev_cases) (auto simp: n1_def min_def)
    have pl: "posFree < length X" using True "1.prems" by simp
    have k: "length Xc - Suc n1 = length (butlast Xc) - n1"
      using True by simp
    have le: "length (butlast Xc) - n1 \<le> length (butlast Xc)" by simp
    have dr: "drop (length (butlast Xc) - n1) Xc = drop (length (butlast Xc) - n1) (butlast Xc) @ [last Xc]"
      using True le by (cases Xc rule: rev_cases) auto
    have tk: "take (length (butlast Xc) - n1) Xc = take (length (butlast Xc) - n1) (butlast Xc)"
      using True le by (cases Xc rule: rev_cases) auto
    have "store_back X Xc posFree bound = store_back (X[posFree := last Xc]) (butlast Xc) (posFree + 1) bound"
      using True by (subst store_back.simps) simp
    also have "\<dots> = (take (posFree + 1) (X[posFree := last Xc]) @
        rev (drop (length (butlast Xc) - n1) (butlast Xc)) @ drop (posFree + 1 + n1) (X[posFree := last Xc]),
      take (length (butlast Xc) - n1) (butlast Xc), posFree + 1 + n1)"
      using "1.IH"[OF True] pl "1.prems" unfolding n1_def by simp
    also have "take (posFree + 1) (X[posFree := last Xc]) = take posFree X @ [last Xc]"
      using pl by (simp add: take_Suc_conv_app_nth)
    also have "drop (posFree + 1 + n1) (X[posFree := last Xc]) = drop (posFree + Suc n1) X"
      by simp
    finally show ?thesis unfolding n k dr tk by simp
  qed
qed

lemma store_back_facts:
  assumes "posFree \<le> length X" "bound \<le> length X" "store_back X Xc posFree bound = (X', Xc', posFree')"
  shows "length X' = length X" "posFree \<le> posFree'" "posFree' \<le> max posFree bound"
    "mset (take posFree' X') + mset Xc' = mset (take posFree X) + mset Xc"
    "posFree' \<le> b \<Longrightarrow> drop b X' = drop b X"
    "Xc' = [] \<or> bound \<le> posFree'"
proof -
  define n where "n = min (bound - posFree) (length Xc)"
  from assms(3) store_back_closed[OF assms(1,2), of Xc]
  have X': "X' = take posFree X @ rev (drop (length Xc - n) Xc) @ drop (posFree + n) X"
    and Xc': "Xc' = take (length Xc - n) Xc" and p': "posFree' = posFree + n"
    by (auto simp: n_def)
  have nb: "posFree + n \<le> length X" "n \<le> length Xc" using assms(1,2) by (auto simp: n_def min_def)
  show "length X' = length X" using nb by (simp add: X')
  show "posFree \<le> posFree'" by (simp add: p')
  show "posFree' \<le> max posFree bound" by (auto simp: p' n_def min_def)
  have "take posFree' X' = take posFree X @ rev (drop (length Xc - n) Xc)"
    using nb assms(1) by (simp add: X' p')
  moreover have "mset (rev (drop (length Xc - n) Xc)) + mset (take (length Xc - n) Xc) = mset Xc"
    by (metis append_take_drop_id mset_append mset_rev union_commute)
  ultimately show "mset (take posFree' X') + mset Xc' = mset (take posFree X) + mset Xc"
    by (simp add: Xc' add.assoc)
  show "drop b X' = drop b X" if "posFree' \<le> b"
  proof -
    have "drop b X' = drop (b - (posFree + n)) (drop (posFree + n) X)"
      using that nb assms(1) by (simp add: X' p')
    with that show ?thesis by (simp add: p')
  qed
  show "Xc' = [] \<or> bound \<le> posFree'"
    by (auto simp: Xc' p' n_def min_def)
qed

lemma merges_of_runs_split:
  assumes "i < length X"
  shows "merges_of_runs emit clen (drop i X) =
         all_pairs emit (take (find_run X i 1 clen) (drop i X)) @
         merges_of_runs emit clen (drop (i + find_run X i 1 clen) X)"
proof -
  let ?P = "\<lambda>y. HasCollision (X ! i) y clen"
  let ?t = "takeWhile ?P (drop (i + 1) X)"
  have d: "drop i X = X ! i # drop (i + 1) X" using assms by (simp add: Cons_nth_drop_Suc)
  have j: "find_run X i 1 clen = 1 + length ?t"
    using assms by (intro find_run_takeWhile) simp
  have "take (length ?t) (drop (i + 1) X) = ?t"
    by (metis append_eq_conv_conj takeWhile_dropWhile_id)
  then have t: "take (find_run X i 1 clen) (drop i X) = X ! i # ?t"
    unfolding j by (subst d) simp
  have "drop (length ?t) (drop (i + 1) X) = dropWhile ?P (drop (i + 1) X)"
    by (metis append_eq_conv_conj takeWhile_dropWhile_id)
  moreover have "drop (i + (1 + length ?t)) X = drop (length ?t) (drop (i + 1) X)"
    by (simp add: add.commute add.left_commute)
  ultimately have r: "drop (i + find_run X i 1 clen) X = dropWhile ?P (drop (i + 1) X)"
    unfolding j by simp
  show ?thesis unfolding t r by (subst d) simp
qed

lemma merges_of_runs_short: "length X \<le> 1 \<Longrightarrow> merges_of_runs emit clen X = []"
  by (cases X) (auto simp: List.map_filter_simps)

lemma scan_loop_mset:
  assumes "posFree \<le> i" "i \<le> length X" "scan_loop emit clen X Xc i posFree = (X', Xc', posFree')"
  shows "length X' = length X \<and> posFree' \<le> length X \<and>
         mset (take posFree' X') + mset Xc' =
           mset (take posFree X) + mset Xc + mset (merges_of_runs emit clen (drop i X))"
  using assms
proof (induction emit clen X Xc i posFree rule: scan_loop.induct)
  case (1 emit clen X Xc i posFree)
  show ?case
  proof (cases "i < length X - 1")
    case False
    then have "length (drop i X) \<le> 1" by simp
    from merges_of_runs_short[OF this]
    have m: "merges_of_runs emit clen (drop i X) = []" .
    from False have "scan_loop emit clen X Xc i posFree = (X, Xc, posFree)"
      by (subst scan_loop.simps) simp
    with "1.prems" m show ?thesis by simp
  next
    case True
    define j where "j = find_run X i 1 clen"
    have il: "i < length X" using True by simp
    have jb: "i + j \<le> length X" unfolding j_def using il by (intro find_run_bound) simp
    have j1: "1 \<le> j" unfolding j_def by (rule find_run_ge)
    obtain X2 Xc2 pf2 where sb: "store_back X (collect_pairs emit X i j Xc) posFree (i + j) = (X2, Xc2, pf2)"
      by (cases "store_back X (collect_pairs emit X i j Xc) posFree (i + j)") auto
    have pl: "posFree \<le> length X" using "1.prems" by simp
    note f = store_back_facts[OF pl jb sb]
    have pf2: "pf2 \<le> i + j" using f(3) "1.prems"(1) by simp
    have rec: "scan_loop emit clen X2 Xc2 (i + j) pf2 = (X', Xc', posFree')"
      using "1.prems"(3) True sb by (subst (asm) scan_loop.simps) (simp add: j_def)
    have "length X' = length X2 \<and> posFree' \<le> length X2 \<and>
         mset (take posFree' X') + mset Xc' =
           mset (take pf2 X2) + mset Xc2 + mset (merges_of_runs emit clen (drop (i + j) X2))"
      using "1.IH"[OF True sb[unfolded j_def, symmetric] refl] pf2 jb f(1) rec
      by (simp add: j_def)
    moreover have "drop (i + j) X2 = drop (i + j) X" using f(5)[OF pf2] .
    moreover have "mset (take pf2 X2) + mset Xc2 =
        mset (take posFree X) + mset Xc + mset (all_pairs emit (take j (drop i X)))"
      using f(4) by (simp add: collect_pairs_all_pairs[OF jb])
    moreover have "merges_of_runs emit clen (drop i X) =
         all_pairs emit (take j (drop i X)) @ merges_of_runs emit clen (drop (i + j) X)"
      unfolding j_def by (rule merges_of_runs_split[OF il])
    ultimately show ?thesis using f(1) by simp
  qed
qed

lemma compact_end_mset:
  assumes "posFree \<le> length X"
  shows "mset (compact_end (X, Xc, posFree)) = mset (take posFree X) + mset Xc"
proof -
  obtain X' Xc' pf' where sb: "store_back X Xc posFree (length X) = (X', Xc', pf')"
    by (cases "store_back X Xc posFree (length X)") auto
  note f = store_back_facts[OF assms le_refl sb]
  have le: "pf' \<le> length X'" using f(1,3) assms by simp
  show ?thesis
  proof (cases "Xc' = []")
    case True
    with f(4) le sb show ?thesis by (auto simp: compact_end_def)
  next
    case False
    with f(6) le f(1) have "pf' = length X'" by simp
    with False f(4) sb show ?thesis by (simp add: compact_end_def)
  qed
qed

lemma scan_compact_mset:
  "mset (compact_end (scan_loop emit clen X [] 0 0)) = mset (merges_of_runs emit clen X)"
proof -
  obtain X' Xc' pf' where s: "scan_loop emit clen X [] 0 0 = (X', Xc', pf')"
    by (cases "scan_loop emit clen X [] 0 0") auto
  from scan_loop_mset[OF _ _ s] have "length X' = length X" "pf' \<le> length X"
    "mset (take pf' X') + mset Xc' = mset (merges_of_runs emit clen X)" by simp_all
  with compact_end_mset[of pf' X' Xc'] s show ?thesis by simp
qed

lemma scan_loop_probed_never:
  assumes "\<forall>log l. \<not> cancelled log l"
  shows "\<exists>log'. scan_loop_probed cancelled L emit clen X Xc i posFree log =
           (log', Inr (scan_loop emit clen X Xc i posFree))"
proof (induction emit clen X Xc i posFree arbitrary: log rule: scan_loop.induct)
  case (1 emit clen X Xc i posFree)
  show ?case
  proof (cases "i < length X - 1")
    case False
    then show ?thesis
      by (subst scan_loop_probed.simps, subst scan_loop.simps) simp
  next
    case True
    obtain X2 Xc2 pf2 where sb: "store_back X (collect_pairs emit X i (find_run X i 1 clen) Xc) posFree (i + find_run X i 1 clen) = (X2, Xc2, pf2)"
      by (cases "store_back X (collect_pairs emit X i (find_run X i 1 clen) Xc) posFree (i + find_run X i 1 clen)") auto
    from "1.IH"[OF True sb[symmetric] refl, of "L # log"]
    obtain log' where "scan_loop_probed cancelled L emit clen X2 Xc2 (i + find_run X i 1 clen) pf2 (L # log) =
           (log', Inr (scan_loop emit clen X2 Xc2 (i + find_run X i 1 clen) pf2))" by blast
    with True sb assms show ?thesis
      by (subst scan_loop_probed.simps, subst scan_loop.simps) simp
  qed
qed

section \<open>Facts about the duplicate filter\<close>

lemma unmarked_split: "a \<le> m \<Longrightarrow> m \<le> b \<Longrightarrow>
  unmarked indices chk a b = unmarked indices chk a m @ unmarked indices chk m b"
  unfolding unmarked_def
  by (metis filter_append map_append upt_add_eq_append le_Suc_ex)



lemma unmarked_empty [simp]: "b \<le> a \<Longrightarrow> unmarked indices chk a b = []"
  by (simp add: unmarked_def)


lemma pairable_Nil [simp]: "pairable []"
  by (simp add: pairable_def)






section \<open>Claims about indices and rows\<close>

text \<open>
  C9. For \<open>8 \<le> ilen \<le> 32\<close> and an index \<open>i < 2 ^ ilen\<close>, with \<open>r\<close> the low \<open>ilen - 8\<close>
  bits of \<open>i\<close>: \<open>UntruncateIndex (TruncateIndex i ilen) r ilen = i\<close>.
\<close>

theorem untruncate_truncate:
  assumes "8 \<le> ilen" "ilen \<le> 32" "unat i < 2 ^ ilen"
  shows "UntruncateIndex (TruncateIndex i ilen) (take_bit (ilen - 8) i) ilen = i"
proof -
  have "take_bit ilen (unat i) = unat i"
    using assms(3) by (simp add: take_bit_nat_eq_self_iff)
  then have tb: "take_bit ilen i = i"
    by (metis unsigned_take_bit_eq word_unat_eq_iff)
  have hi: "n < ilen" if "bit i n" for n
  proof -
    have "bit (take_bit ilen i) n" using that by (simp add: tb)
    then show ?thesis by (simp add: bit_take_bit_iff)
  qed
  have m: "(255::eh_index) = mask 8" by (simp add: mask_eq_exp_minus_1)
  show ?thesis
    unfolding UntruncateIndex_def TruncateIndex_def m
    apply (intro bit_word_eqI)
    subgoal for n
      using hi[of n] assms(1,2)
      by (auto simp add: bit_simps)
    done
qed

theorem untruncate_truncate_witness:
  "(8::nat) \<le> 9 \<and> (9::nat) \<le> 32 \<and> unat (301 :: eh_index) < 2 ^ 9 \<and>
   TruncateIndex 301 9 = 150 \<and> take_bit (9 - 8) (301 :: eh_index) = 1 \<and>
   UntruncateIndex (TruncateIndex 301 9) (take_bit (9 - 8) 301) 9 = 301"
proof -
  have h: "(8::nat) \<le> 9" "(9::nat) \<le> 32" "unat (301 :: eh_index) < 2 ^ 9" by simp_all
  have t: "TruncateIndex 301 9 = 150" by (simp add: TruncateIndex_def)
  have r: "take_bit (9 - 8) (301 :: eh_index) = 1" by simp
  show ?thesis using h t r untruncate_truncate [OF h] by simp
qed

text \<open>
  C6. Under the width preconditions, the merging constructor yields a row \<open>c\<close> with
  \<open>c[x] = a[trim + x] XOR b[trim + x]\<close> for every \<open>x < len - trim\<close>, followed by the index
  history: \<open>a\<close>'s then \<open>b\<close>'s when the history of \<open>a\<close> is before the history of \<open>b\<close> in the
  byte-wise unsigned comparison, and \<open>b\<close>'s then \<open>a\<close>'s otherwise. So \<open>a\<close>'s history comes
  first whenever the leftmost index of \<open>a\<close> is strictly less than that of \<open>b\<close>, and \<open>b\<close>'s
  whenever it is strictly greater; when the leftmost indices are equal, the bytes after
  them decide, and two equal histories give the same row either way. For full rows
  (the leftmost index is the big-endian word at \<open>len\<close>) and for truncated rows (the byte
  at \<open>len\<close>); the history of a row is its \<open>lenIndices\<close> bytes from \<open>len\<close> on.
\<close>

theorem merge_bytes_and_history:
  assumes "merge_widths_ok (length a) WIDTH len lenIndices trim" and "length b = length a"
  shows "(\<forall>x < len - trim. FullStepRow_merge WIDTH a b len lenIndices trim ! x = a ! (trim + x) XOR b ! (trim + x)) \<and>
         take (2 * lenIndices) (drop (len - trim) (FullStepRow_merge WIDTH a b len lenIndices trim)) =
           (if ord_class.lexordp (take lenIndices (drop len a)) (take lenIndices (drop len b))
            then take lenIndices (drop len a) @ take lenIndices (drop len b)
            else take lenIndices (drop len b) @ take lenIndices (drop len a)) \<and>
         (4 \<le> lenIndices \<and> ArrayToEhIndex (drop len a) < ArrayToEhIndex (drop len b) \<longrightarrow>
            take (2 * lenIndices) (drop (len - trim) (FullStepRow_merge WIDTH a b len lenIndices trim)) =
              take lenIndices (drop len a) @ take lenIndices (drop len b)) \<and>
         (4 \<le> lenIndices \<and> ArrayToEhIndex (drop len b) < ArrayToEhIndex (drop len a) \<longrightarrow>
            take (2 * lenIndices) (drop (len - trim) (FullStepRow_merge WIDTH a b len lenIndices trim)) =
              take lenIndices (drop len b) @ take lenIndices (drop len a)) \<and>
         (\<forall>x < len - trim. TruncatedStepRow_merge WIDTH a b len lenIndices trim ! x = a ! (trim + x) XOR b ! (trim + x)) \<and>
         take (2 * lenIndices) (drop (len - trim) (TruncatedStepRow_merge WIDTH a b len lenIndices trim)) =
           (if ord_class.lexordp (take lenIndices (drop len a)) (take lenIndices (drop len b))
            then take lenIndices (drop len a) @ take lenIndices (drop len b)
            else take lenIndices (drop len b) @ take lenIndices (drop len a)) \<and>
         (0 < lenIndices \<and> a ! len < b ! len \<longrightarrow>
            take (2 * lenIndices) (drop (len - trim) (TruncatedStepRow_merge WIDTH a b len lenIndices trim)) =
              take lenIndices (drop len a) @ take lenIndices (drop len b)) \<and>
         (0 < lenIndices \<and> b ! len < a ! len \<longrightarrow>
            take (2 * lenIndices) (drop (len - trim) (TruncatedStepRow_merge WIDTH a b len lenIndices trim)) =
              take lenIndices (drop len b) @ take lenIndices (drop len a))"
proof -
  have la: "len + lenIndices \<le> length a" "len + lenIndices \<le> length b"
    using assms unfolding merge_widths_ok_def by auto
  note ib = IndicesBefore_history[OF la]
  have f: "take (2 * lenIndices) (drop (len - trim) (FullStepRow_merge WIDTH a b len lenIndices trim)) =
           (if Full_IndicesBefore a b len lenIndices
            then take lenIndices (drop len a) @ take lenIndices (drop len b)
            else take lenIndices (drop len b) @ take lenIndices (drop len a))"
    unfolding FullStepRow_merge_def by (rule StepRow_merge_history[OF assms])
  have t: "take (2 * lenIndices) (drop (len - trim) (TruncatedStepRow_merge WIDTH a b len lenIndices trim)) =
           (if Truncated_IndicesBefore a b len lenIndices
            then take lenIndices (drop len a) @ take lenIndices (drop len b)
            else take lenIndices (drop len b) @ take lenIndices (drop len a))"
    unfolding TruncatedStepRow_merge_def by (rule StepRow_merge_history[OF assms])
  have x: "StepRow_merge ib WIDTH a b len lenIndices trim ! x = a ! (trim + x) XOR b ! (trim + x)"
    if "x < len - trim" for x ib
    using StepRow_merge_nth[OF assms(1), where p = x and ib = ib and a = a and b = b] that by simp
  have f1: "Full_IndicesBefore a b len lenIndices"
    if "4 \<le> lenIndices" "ArrayToEhIndex (drop len a) < ArrayToEhIndex (drop len b)"
    using that by (rule Full_IndicesBefore_less)
  have f2: "\<not> Full_IndicesBefore a b len lenIndices"
    if "4 \<le> lenIndices" "ArrayToEhIndex (drop len b) < ArrayToEhIndex (drop len a)"
    using Full_IndicesBefore_asym[OF Full_IndicesBefore_less[OF that]] .
  have t1: "Truncated_IndicesBefore a b len lenIndices" if "0 < lenIndices" "a ! len < b ! len"
    using Truncated_IndicesBefore_leftmost[OF that(1), of len a b] that la by simp
  have t2: "\<not> Truncated_IndicesBefore a b len lenIndices" if "0 < lenIndices" "b ! len < a ! len"
    using Truncated_IndicesBefore_leftmost[OF that(1), of len a b] that la by auto
  show ?thesis
    using f t x f1 f2 t1 t2 unfolding ib FullStepRow_merge_def TruncatedStepRow_merge_def
    by (intro conjI impI allI) auto
qed

theorem merge_bytes_and_history_witness:
  "merge_widths_ok 6 9 2 4 1 \<and> (4::nat) \<le> 4 \<and>
   ArrayToEhIndex (drop 2 [7, 1, 0, 0, 0, 3]) < ArrayToEhIndex (drop 2 [7, 2, 0, 0, 0, 5]) \<and>
   take (2 * 4) (drop (2 - 1) (FullStepRow_merge 9 [7, 1, 0, 0, 0, 3] [7, 2, 0, 0, 0, 5] 2 4 1)) =
     [0, 0, 0, 3] @ [0, 0, 0, 5] \<and>
   take (2 * 4) (drop (2 - 1) (FullStepRow_merge 9 [7, 2, 0, 0, 0, 5] [7, 1, 0, 0, 0, 3] 2 4 1)) =
     [0, 0, 0, 3] @ [0, 0, 0, 5] \<and>
   FullStepRow_merge 9 [7, 1, 0, 0, 0, 3] [7, 2, 0, 0, 0, 5] 2 4 1 ! 0 = 3 \<and>
   [7, 1, 4, 9, 0, 0 :: byte] ! 2 < [7, 2, 5, 8, 0, 0] ! 2 \<and>
   take (2 * 2) (drop (2 - 1) (TruncatedStepRow_merge 9 [7, 1, 4, 9, 0, 0] [7, 2, 5, 8, 0, 0] 2 2 1)) =
     [4, 9] @ [5, 8] \<and>
   take (2 * 2) (drop (2 - 1) (TruncatedStepRow_merge 9 [7, 1, 4, 5, 0, 0] [7, 2, 4, 9, 0, 0] 2 2 1)) =
     [4, 5] @ [4, 9]"
proof -
  have h: "merge_widths_ok (length [7, 1, 0, 0, 0, 3 :: byte]) 9 2 4 1"
    "length [7, 2, 0, 0, 0, 5 :: byte] = length [7, 1, 0, 0, 0, 3 :: byte]"
    "merge_widths_ok (length [7, 2, 0, 0, 0, 5 :: byte]) 9 2 4 1"
    "length [7, 1, 0, 0, 0, 3 :: byte] = length [7, 2, 0, 0, 0, 5 :: byte]"
    "merge_widths_ok (length [7, 1, 4, 9, 0, 0 :: byte]) 9 2 2 1"
    "length [7, 2, 5, 8, 0, 0 :: byte] = length [7, 1, 4, 9, 0, 0 :: byte]"
    "merge_widths_ok (length [7, 1, 4, 5, 0, 0 :: byte]) 9 2 2 1"
    "length [7, 2, 4, 9, 0, 0 :: byte] = length [7, 1, 4, 5, 0, 0 :: byte]"
    by (simp_all add: merge_widths_ok_def)
  have w: "merge_widths_ok 6 9 2 4 1" "(4::nat) \<le> 4" by (simp_all add: merge_widths_ok_def)
  have l: "ArrayToEhIndex (drop 2 [7, 1, 0, 0, 0, 3]) < ArrayToEhIndex (drop 2 [7, 2, 0, 0, 0, 5])"
    by (simp add: ArrayToEhIndex_def)
  have b: "[7, 1, 4, 9, 0, 0 :: byte] ! 2 < [7, 2, 5, 8, 0, 0] ! 2" by simp
  from merge_bytes_and_history [OF h(1,2)] w l
  have f1: "take (2 * 4) (drop (2 - 1) (FullStepRow_merge 9 [7, 1, 0, 0, 0, 3] [7, 2, 0, 0, 0, 5] 2 4 1)) =
     [0, 0, 0, 3] @ [0, 0, 0, 5]"
    and x: "FullStepRow_merge 9 [7, 1, 0, 0, 0, 3] [7, 2, 0, 0, 0, 5] 2 4 1 ! 0 = 3"
    by simp_all
  from merge_bytes_and_history [OF h(3,4)] w l
  have f2: "take (2 * 4) (drop (2 - 1) (FullStepRow_merge 9 [7, 2, 0, 0, 0, 5] [7, 1, 0, 0, 0, 3] 2 4 1)) =
     [0, 0, 0, 3] @ [0, 0, 0, 5]"
    by simp
  from merge_bytes_and_history [OF h(5,6)] b
  have t1: "take (2 * 2) (drop (2 - 1) (TruncatedStepRow_merge 9 [7, 1, 4, 9, 0, 0] [7, 2, 5, 8, 0, 0] 2 2 1)) =
     [4, 9] @ [5, 8]"
    by simp
  from merge_bytes_and_history [OF h(7,8)]
  have t2: "take (2 * 2) (drop (2 - 1) (TruncatedStepRow_merge 9 [7, 1, 4, 5, 0, 0] [7, 2, 4, 9, 0, 0] 2 2 1)) =
     [4, 5] @ [4, 9]"
    by simp
  from w l f1 f2 x b t1 t2 show ?thesis by blast
qed

text \<open>
  The same claim with the order decided by the leftmost index alone, \<open>b\<close>'s history first
  whenever the leftmost index of \<open>a\<close> is not strictly less, fails where the leftmost
  indices are equal and the histories differ. For the truncated rows with the histories
  \<open>[4, 5]\<close> and \<open>[4, 9]\<close>, and for the full rows with the index histories \<open>3, 4\<close> and
  \<open>3, 9\<close>, the constructor puts \<open>a\<close>'s history first.
\<close>

theorem merge_leftmost_tie_counterexample:
  "merge_widths_ok (length [1, 4, 5 :: byte]) 5 1 2 0 \<and>
   length [2, 4, 9 :: byte] = length [1, 4, 5 :: byte] \<and>
   \<not> [1, 4, 5 :: byte] ! 1 < [2, 4, 9] ! 1 \<and>
   TruncatedStepRow_merge 5 [1, 4, 5] [2, 4, 9] 1 2 0 = [3, 4, 5, 4, 9] \<and>
   take (2 * 2) (drop (1 - 0) (TruncatedStepRow_merge 5 [1, 4, 5] [2, 4, 9] 1 2 0)) \<noteq>
     take 2 (drop 1 [2, 4, 9]) @ take 2 (drop 1 [1, 4, 5]) \<and>
   merge_widths_ok (length [1, 0, 0, 0, 3, 0, 0, 0, 4 :: byte]) 17 1 8 0 \<and>
   length [2, 0, 0, 0, 3, 0, 0, 0, 9 :: byte] = length [1, 0, 0, 0, 3, 0, 0, 0, 4 :: byte] \<and>
   \<not> ArrayToEhIndex (drop 1 [1, 0, 0, 0, 3, 0, 0, 0, 4]) < ArrayToEhIndex (drop 1 [2, 0, 0, 0, 3, 0, 0, 0, 9]) \<and>
   FullStepRow_merge 17 [1, 0, 0, 0, 3, 0, 0, 0, 4] [2, 0, 0, 0, 3, 0, 0, 0, 9] 1 8 0 =
     [3, 0, 0, 0, 3, 0, 0, 0, 4, 0, 0, 0, 3, 0, 0, 0, 9] \<and>
   take (2 * 8) (drop (1 - 0) (FullStepRow_merge 17 [1, 0, 0, 0, 3, 0, 0, 0, 4] [2, 0, 0, 0, 3, 0, 0, 0, 9] 1 8 0)) \<noteq>
     take 8 (drop 1 [2, 0, 0, 0, 3, 0, 0, 0, 9]) @ take 8 (drop 1 [1, 0, 0, 0, 3, 0, 0, 0, 4])"
proof -
  have t: "TruncatedStepRow_merge 5 [1, 4, 5] [2, 4, 9] 1 2 0 = [3, 4, 5, 4, 9]" by code_simp
  have f: "FullStepRow_merge 17 [1, 0, 0, 0, 3, 0, 0, 0, 4] [2, 0, 0, 0, 3, 0, 0, 0, 9] 1 8 0 =
     [3, 0, 0, 0, 3, 0, 0, 0, 4, 0, 0, 0, 3, 0, 0, 0, 9]" by code_simp
  have l: "\<not> ArrayToEhIndex (drop 1 [1, 0, 0, 0, 3, 0, 0, 0, 4]) < ArrayToEhIndex (drop 1 [2, 0, 0, 0, 3, 0, 0, 0, 9])"
    by (simp add: ArrayToEhIndex_def)
  show ?thesis
    unfolding t f using l by (simp add: merge_widths_ok_def)
qed

section \<open>Claims about the rounds and the cancellation\<close>



lemma scan_probed_mset:
  assumes "\<forall>log l. \<not> cancelled log l"
  shows "\<exists>log' s. scan_loop_probed cancelled L emit clen X [] 0 0 log = (log', Inr s) \<and>
           mset (compact_end s) = mset (merges_of_runs emit clen X)"
proof -
  from scan_loop_probed_never[OF assms, of L emit clen X "[]" 0 0 log]
  obtain log' where e: "scan_loop_probed cancelled L emit clen X [] 0 0 log =
      (log', Inr (scan_loop emit clen X [] 0 0))" by blast
  show ?thesis
    by (intro exI[of _ log'] exI[of _ "scan_loop emit clen X [] 0 0"] conjI e scan_compact_mset)
qed

text \<open>
  C7. A round of \<^verbatim>\<open>BasicSolve\<close> whose probe never cancels, run on the sorted list: the
  scan with its in-place compaction ends normally, and the list it leaves is, as a
  multiset, the list of the merges of all admissible pairs of every run: what a scan
  into a fresh list would give, nothing lost and no row of the old list kept.
\<close>

theorem compaction_is_fresh_list:
  assumes "\<forall>log l. \<not> cancelled log l"
  shows "\<exists>log' s.
           scan_loop_probed cancelled ListColliding (basic_emit FullWidth clen hashLen lenIndices) clen
             (sortf clen X) [] 0 0 log = (log', Inr s) \<and>
           mset (compact_end s) =
             mset (merges_of_runs (basic_emit FullWidth clen hashLen lenIndices) clen (sortf clen X))"
  using assms by (rule scan_probed_mset)

theorem compaction_is_fresh_list_witness:
  "\<exists>log' s.
     scan_loop_probed (\<lambda>log l. False) ListColliding (basic_emit 9 1 2 4) 1
       (insertion_sort 1 [[7, 1, 0, 0, 0, 5, 0, 0, 0], [6, 9, 0, 0, 0, 4, 0, 0, 0],
                          [7, 2, 0, 0, 0, 3, 0, 0, 0]]) [] 0 0 [] = (log', Inr s) \<and>
     mset (compact_end s) = {#[3, 0, 0, 0, 3, 0, 0, 0, 5]#}"
proof -
  have n: "\<forall>log l. \<not> (\<lambda>(log :: probe_log) (l :: EhSolverCancelCheck). False) log l" by simp
  have m: "merges_of_runs (basic_emit 9 1 2 4) 1
       (insertion_sort 1 [[7, 1, 0, 0, 0, 5, 0, 0, 0], [6, 9, 0, 0, 0, 4, 0, 0, 0],
                          [7, 2, 0, 0, 0, 3, 0, 0, 0]]) = [[3, 0, 0, 0, 3, 0, 0, 0, 5]]"
    by code_simp
  show ?thesis
    using compaction_is_fresh_list [OF n, of 9 1 2 4 insertion_sort
        "[[7, 1, 0, 0, 0, 5, 0, 0, 0], [6, 9, 0, 0, 0, 4, 0, 0, 0], [7, 2, 0, 0, 0, 3, 0, 0, 0]]" "[]"]
    unfolding m by simp
qed



text \<open>
  C8. When the probe returns true at every call, each of \<^verbatim>\<open>BasicSolve\<close> and
  \<^verbatim>\<open>OptimisedSolve\<close> is left by \<^verbatim>\<open>throw solver_cancelled\<close> and returns no solution set;
  the probe has then been called once, with the label \<^verbatim>\<open>ListGeneration\<close>.
\<close>

theorem cancelled_at_list_generation:
  assumes "\<forall>log l. cancelled log l"
  shows "BasicSolve sortf N K FullWidth FinalFullWidth base_state cancelled =
           ([ListGeneration], Inl SolverCancelled) \<and>
         OptimisedSolve sortf N K TruncatedWidth FinalTruncatedWidth FinalFullWidth base_state cancelled =
           ([ListGeneration], Inl SolverCancelled)"
proof -
  have "[0..<2 ^ (CollisionBitLength N K + 1)] = 0 # [1..<2 ^ (CollisionBitLength N K + 1)]"
    by (simp add: upt_conv_Cons del: upt_Suc)
  then have "generate cancelled ListGeneration mk (map of_nat [0..<2 ^ (CollisionBitLength N K + 1)]) [] =
             ([ListGeneration], Inl SolverCancelled)" for mk
    using assms by simp
  then show ?thesis by (simp add: BasicSolve_def OptimisedSolve_def)
qed

theorem cancelled_at_list_generation_witness:
  "BasicSolve insertion_sort 48 5 66 130 (\<lambda>m p. 0) (\<lambda>log l. True) =
     ([ListGeneration], Inl SolverCancelled) \<and>
   OptimisedSolve insertion_sort 48 5 18 34 130 (\<lambda>m p. 0) (\<lambda>log l. True) =
     ([ListGeneration], Inl SolverCancelled)"
proof -
  have a: "\<forall>log l. (\<lambda>(log :: probe_log) (l :: EhSolverCancelCheck). True) log l" by simp
  show ?thesis
    using cancelled_at_list_generation [OF a, of insertion_sort 48 5 66 130 "\<lambda>m p. 0" 18 34]
    by simp
qed

section \<open>The basic solver builds what the verifier rebuilds\<close>

lemma agree_refl [simp]: "agree n r r"
  by (simp add: agree_def)

lemma agree_sym: "agree n r r' \<Longrightarrow> agree n r' r"
  by (simp add: agree_def)

lemma agree_nth: "agree n r r' \<Longrightarrow> p < n \<Longrightarrow> r ! p = r' ! p"
proof -
  assume a: "agree n r r'" "p < n"
  then have "take n r ! p = take n r' ! p" by (simp add: agree_def)
  with a(2) show ?thesis by simp
qed

lemma agree_mono: "agree n r r' \<Longrightarrow> m \<le> n \<Longrightarrow> agree m r r'"
proof -
  assume a: "agree n r r'" "m \<le> n"
  then have "take m (take n r) = take m (take n r')" by (simp add: agree_def)
  with a(2) show ?thesis by (simp add: agree_def min_def)
qed

lemma agreeI:
  assumes "n \<le> length r" "n \<le> length r'" "\<And>p. p < n \<Longrightarrow> r ! p = r' ! p"
  shows "agree n r r'"
  unfolding agree_def using assms by (intro nth_equalityI) simp_all

lemma HasCollision_iff: "HasCollision a b l \<longleftrightarrow> (\<forall>j < l. a ! j = b ! j)"
  by (auto simp: HasCollision_def list_all_iff)

lemma HasCollision_sym: "HasCollision a b l \<Longrightarrow> HasCollision b a l"
  by (simp add: HasCollision_iff)

lemma HasCollision_trans: "HasCollision a b l \<Longrightarrow> HasCollision b c l \<Longrightarrow> HasCollision a c l"
  by (simp add: HasCollision_iff)

lemma HasCollision_mono: "HasCollision a b l \<Longrightarrow> m \<le> l \<Longrightarrow> HasCollision a b m"
  by (simp add: HasCollision_iff)

lemma HasCollision_agree:
  "agree n a a' \<Longrightarrow> agree n b b' \<Longrightarrow> l \<le> n \<Longrightarrow> HasCollision a' b' l = HasCollision a b l"
proof -
  assume a: "agree n a a'" "agree n b b'" "l \<le> n"
  have "a' ! j = a ! j" "b' ! j = b ! j" if "j < l" for j
    using agree_nth[OF a(1), of j] agree_nth[OF a(2), of j] a(3) that by simp_all
  then show ?thesis by (simp add: HasCollision_iff)
qed

lemma IsZero_iff: "IsZero r l \<longleftrightarrow> (\<forall>j < l. r ! j = 0)"
  by (auto simp: IsZero_def list_all_iff)

lemma ArrayToEhIndex_drop:
  "h + 4 \<le> length r \<Longrightarrow>
   ArrayToEhIndex (drop h r) =
     push_bit 24 (ucast (r ! h)) OR push_bit 16 (ucast (r ! (h + 1))) OR
     push_bit 8 (ucast (r ! (h + 2))) OR ucast (r ! (h + 3))"
  by (simp add: ArrayToEhIndex_def)

lemma ArrayToEhIndex_agree:
  assumes "agree n r r'" "h + 4 \<le> n" "n \<le> length r" "n \<le> length r'"
  shows "ArrayToEhIndex (drop h r) = ArrayToEhIndex (drop h r')"
proof -
  have "r ! (h + p) = r' ! (h + p)" if "p < 4" for p
    using assms that by (intro agree_nth[OF assms(1)]) simp
  from this[of 0] this[of 1] this[of 2] this[of 3] assms show ?thesis
    by (simp add: ArrayToEhIndex_drop)
qed

lemma GetIndices_agree:
  assumes "agree n r r'" "h + l \<le> n" "n \<le> length r" "n \<le> length r'" "4 dvd l"
  shows "GetIndices r h l = GetIndices r' h l"
proof -
  have "ArrayToEhIndex (drop (h + 4 * j) r) = ArrayToEhIndex (drop (h + 4 * j) r')"
    if "j < (l + 3) div 4" for j
  proof -
    from assms(5) obtain q where q: "l = 4 * q" by (auto simp: dvd_def)
    with that have "j < q" by simp
    then have "h + 4 * j + 4 \<le> n" using assms(2) q by simp
    then show ?thesis by (rule ArrayToEhIndex_agree[OF assms(1) _ assms(3,4)])
  qed
  then show ?thesis by (simp add: GetIndices_def)
qed

lemma GetIndices_length: "4 dvd l \<Longrightarrow> length (GetIndices r h l) = l div 4"
  by (auto simp: GetIndices_def dvd_def)

lemma GetIndices_double:
  assumes "4 dvd l" "h' + 2 * l \<le> length m" "h + l \<le> length a" "h + l \<le> length b"
    and "take (2 * l) (drop h' m) = take l (drop h a) @ take l (drop h b)"
  shows "GetIndices m h' (2 * l) = GetIndices a h l @ GetIndices b h l"
proof -
  from assms(1) obtain q where q: "l = 4 * q" by (auto simp: dvd_def)
  have nth_m: "m ! (h' + p) = (if p < l then a ! (h + p) else b ! (h + (p - l)))" if "p < 2 * l" for p
  proof -
    have "m ! (h' + p) = take (2 * l) (drop h' m) ! p" using that assms(2) by simp
    also have "\<dots> = (take l (drop h a) @ take l (drop h b)) ! p" by (simp add: assms(5))
    also have "\<dots> = (if p < l then a ! (h + p) else b ! (h + (p - l)))"
      using that assms(3,4) by (auto simp: nth_append)
    finally show ?thesis .
  qed
  have A: "ArrayToEhIndex (drop (h' + 4 * j) m) = ArrayToEhIndex (drop (h + 4 * j) a)" if "j < q" for j
  proof -
    have "m ! (h' + 4 * j + p) = a ! (h + 4 * j + p)" if "p < 4" for p
      using nth_m[of "4 * j + p"] that \<open>j < q\<close> q by (simp add: add.assoc)
    from this[of 0] this[of 1] this[of 2] this[of 3] that q assms(2,3) show ?thesis
      by (simp add: ArrayToEhIndex_drop)
  qed
  have B: "ArrayToEhIndex (drop (h' + 4 * (q + j)) m) = ArrayToEhIndex (drop (h + 4 * j) b)" if "j < q" for j
  proof -
    have "m ! (h' + 4 * (q + j) + p) = b ! (h + 4 * j + p)" if "p < 4" for p
      using nth_m[of "4 * (q + j) + p"] that \<open>j < q\<close> q by (simp add: add.assoc)
    from this[of 0] this[of 1] this[of 2] this[of 3] that q assms(2,4) show ?thesis
      by (simp add: ArrayToEhIndex_drop)
  qed
  have "[0..<q + q] = [0..<q] @ [q..<q + q]"
    by (rule upt_add_eq_append) simp
  moreover have "[q..<q + q] = map (\<lambda>j. q + j) [0..<q]"
    by (simp add: map_add_upt add.commute)
  ultimately have u: "[0..<2 * q] = [0..<q] @ map (\<lambda>j. q + j) [0..<q]"
    by (simp add: mult_2)
  have n2: "(2 * l + 3) div 4 = 2 * q" using q by simp
  have "GetIndices m h' (2 * l) = map (\<lambda>j. ArrayToEhIndex (drop (h' + 4 * j) m)) [0..<2 * q]"
    unfolding GetIndices_def n2 ..
  also have "\<dots> =
      map (\<lambda>j. ArrayToEhIndex (drop (h' + 4 * j) m)) [0..<q] @
      map (\<lambda>j. ArrayToEhIndex (drop (h' + 4 * (q + j)) m)) [0..<q]"
    unfolding u by (simp add: comp_def)
  also have "\<dots> = GetIndices a h l @ GetIndices b h l"
    using A B by (simp add: GetIndices_def q)
  finally show ?thesis .
qed

lemma DistinctIndices_iff:
  "DistinctIndices a b h l \<longleftrightarrow> set (GetIndices a h l) \<inter> set (GetIndices b h l) = {}"
  by (auto simp: DistinctIndices_def list_all_iff)

lemma DistinctIndices_sym: "DistinctIndices a b h l \<Longrightarrow> DistinctIndices b a h l"
  by (auto simp: DistinctIndices_iff)

lemma fold_pointwise_nth:
  assumes "h ! p = h' ! p" "p < length h" "p < length h'"
  shows "fold (\<lambda>j h. h[g j := F (h ! g j)]) js h ! p = fold (\<lambda>j h. h[g j := F (h ! g j)]) js h' ! p"
  using assms
proof (induction js arbitrary: h h')
  case Nil
  then show ?case by simp
next
  case (Cons j js)
  have "h[g j := F (h ! g j)] ! p = h'[g j := F (h' ! g j)] ! p"
    using Cons.prems by (cases "g j = p") simp_all
  with Cons.IH[of "h[g j := F (h ! g j)]" "h'[g j := F (h' ! g j)]"] Cons.prems
  show ?case by simp
qed

lemma StepRow_new_nth_width:
  assumes "p < ExpandedHashLength n k" "ExpandedHashLength n k \<le> W1" "ExpandedHashLength n k \<le> W2"
  shows "StepRow_new W1 n k base_state i ! p = StepRow_new W2 n k base_state i ! p"
  unfolding StepRow_new_def Let_def
  using assms by (intro fold_pointwise_nth) (simp_all add: std_copy_nth)

lemma FullStepRow_new_agree:
  assumes "ExpandedHashLength n k + 4 \<le> W1" "ExpandedHashLength n k + 4 \<le> W2"
  shows "agree (ExpandedHashLength n k + 4) (FullStepRow_new W1 n k base_state i)
           (FullStepRow_new W2 n k base_state i)"
proof (rule agreeI)
  fix p assume p: "p < ExpandedHashLength n k + 4"
  show "FullStepRow_new W1 n k base_state i ! p = FullStepRow_new W2 n k base_state i ! p"
  proof (cases "p < ExpandedHashLength n k")
    case True
    with StepRow_new_nth_width[OF True, of W1 W2] assms show ?thesis
      by (simp add: FullStepRow_new_def std_copy_nth)
  next
    case False
    with p assms show ?thesis by (simp add: FullStepRow_new_def std_copy_nth)
  qed
qed (use assms in simp_all)

lemma walk_n_snoc:
  "walk_n WIDTH clen (Suc n) s =
     (case walk_n WIDTH clen n s of
        None \<Rightarrow> None
      | Some s' \<Rightarrow> (case level_step WIDTH clen s' of Inr (Some s'') \<Rightarrow> Some s'' | _ \<Rightarrow> None))"
proof (induction n arbitrary: s)
  case 0
  show ?case by (simp split: sum.splits option.splits)
next
  case (Suc n)
  show ?case
  proof (cases "level_step WIDTH clen s")
    case (Inl f)
    then show ?thesis by simp
  next
    case (Inr r)
    show ?thesis
    proof (cases r)
      case None
      with Inr show ?thesis by simp
    next
      case (Some s1)
      have "walk_n WIDTH clen (Suc (Suc n)) s = walk_n WIDTH clen (Suc n) s1"
        using Inr Some by simp
      also note Suc[of s1]
      also have "walk_n WIDTH clen n s1 = walk_n WIDTH clen (Suc n) s"
        using Inr Some by simp
      finally show ?thesis .
    qed
  qed
qed

lemma verify_pairs_prefix:
  assumes "i \<le> length X" "verify_pairs WIDTH clen X h l i Xc = Inr (Some A)"
  shows "verify_pairs WIDTH clen (X @ Y) h l i Xc = verify_pairs WIDTH clen (X @ Y) h l (length X) A"
  using assms
proof (induction WIDTH clen X h l i Xc rule: verify_pairs.induct)
  case (1 WIDTH clen X h l i Xc)
  show ?case
  proof (cases "i < length X")
    case False
    with "1.prems" have "i = length X" "A = Xc" by (simp_all add: verify_pairs.simps)
    then show ?thesis by simp
  next
    case True
    with "1.prems" have c: "\<not> length X \<le> i + 1" "HasCollision (X ! i) (X ! (i + 1)) clen"
      "\<not> Full_IndicesBefore (X ! (i + 1)) (X ! i) h l" "DistinctIndices (X ! i) (X ! (i + 1)) h l"
      by (auto simp: verify_pairs.simps[of WIDTH clen X h l i Xc] split: if_splits)
    with True "1.prems" have n: "verify_pairs WIDTH clen X h l (i + 2)
               (Xc @ [FullStepRow_merge WIDTH (X ! i) (X ! (i + 1)) h l clen]) = Inr (Some A)"
      by (simp add: verify_pairs.simps[of WIDTH clen X h l i Xc])
    have le: "i + 2 \<le> length X" using c(1) by simp
    have "verify_pairs WIDTH clen (X @ Y) h l (i + 2)
            (Xc @ [FullStepRow_merge WIDTH (X ! i) (X ! (i + 1)) h l clen]) =
          verify_pairs WIDTH clen (X @ Y) h l (length X) A"
      using "1.IH" True c le n by simp
    moreover have "verify_pairs WIDTH clen (X @ Y) h l i Xc =
          verify_pairs WIDTH clen (X @ Y) h l (i + 2)
            (Xc @ [FullStepRow_merge WIDTH (X ! i) (X ! (i + 1)) h l clen])"
      using True c by (subst verify_pairs.simps) (simp add: nth_append)
    ultimately show ?thesis by simp
  qed
qed

lemma verify_pairs_suffix:
  assumes "verify_pairs WIDTH clen Y h l i Xc = Inr (Some B)"
  shows "verify_pairs WIDTH clen (X @ Y) h l (length X + i) (A @ Xc) = Inr (Some (A @ B))"
  using assms
proof (induction WIDTH clen Y h l i Xc rule: verify_pairs.induct)
  case (1 WIDTH clen Y h l i Xc)
  show ?case
  proof (cases "i < length Y")
    case False
    with "1.prems" have "B = Xc" by (simp add: verify_pairs.simps)
    with False show ?thesis by (subst verify_pairs.simps) simp
  next
    case True
    with "1.prems" have c: "\<not> length Y \<le> i + 1" "HasCollision (Y ! i) (Y ! (i + 1)) clen"
      "\<not> Full_IndicesBefore (Y ! (i + 1)) (Y ! i) h l" "DistinctIndices (Y ! i) (Y ! (i + 1)) h l"
      by (auto simp: verify_pairs.simps[of WIDTH clen Y h l i Xc] split: if_splits)
    with True "1.prems" have n: "verify_pairs WIDTH clen Y h l (i + 2)
               (Xc @ [FullStepRow_merge WIDTH (Y ! i) (Y ! (i + 1)) h l clen]) = Inr (Some B)"
      by (simp add: verify_pairs.simps[of WIDTH clen Y h l i Xc])
    have "verify_pairs WIDTH clen (X @ Y) h l (length X + (i + 2))
            (A @ Xc @ [FullStepRow_merge WIDTH (Y ! i) (Y ! (i + 1)) h l clen]) = Inr (Some (A @ B))"
      using "1.IH" True c n by simp
    moreover have "(X @ Y) ! (length X + i) = Y ! i" "(X @ Y) ! (length X + i + 1) = Y ! (i + 1)"
      by (simp_all add: nth_append)
    ultimately show ?thesis using True c
      by (subst verify_pairs.simps) (simp add: add.assoc)
  qed
qed

lemma level_step_append:
  assumes "level_step WIDTH clen (X, h, l) = Inr (Some (A, h1, l1))"
    and "level_step WIDTH clen (Y, h, l) = Inr (Some (B, h2, l2))"
  shows "level_step WIDTH clen (X @ Y, h, l) = Inr (Some (A @ B, h1, l1))"
proof -
  from assms(1) have a: "verify_pairs WIDTH clen X h l 0 [] = Inr (Some A)" "h1 = h - clen" "l1 = l * 2"
    by (auto simp: level_step_def split: sum.splits option.splits)
  from assms(2) have b: "verify_pairs WIDTH clen Y h l 0 [] = Inr (Some B)"
    by (auto simp: level_step_def split: sum.splits option.splits)
  have "verify_pairs WIDTH clen (X @ Y) h l 0 [] = verify_pairs WIDTH clen (X @ Y) h l (length X) A"
    by (rule verify_pairs_prefix[OF _ a(1)]) simp
  also have "\<dots> = Inr (Some (A @ B))"
    using verify_pairs_suffix[OF b, of X A] by simp
  finally show ?thesis by (simp add: level_step_def a)
qed

lemma walk_n_append:
  assumes "walk_n WIDTH clen n (X, h, l) = Some (A, h1, l1)"
    and "walk_n WIDTH clen n (Y, h, l) = Some (B, h2, l2)"
  shows "walk_n WIDTH clen n (X @ Y, h, l) = Some (A @ B, h1, l1)"
  using assms
proof (induction n arbitrary: X Y h l)
  case 0
  then show ?case by simp
next
  case (Suc n)
  from Suc.prems(1) obtain X1 hx lx where x: "level_step WIDTH clen (X, h, l) = Inr (Some (X1, hx, lx))"
    "walk_n WIDTH clen n (X1, hx, lx) = Some (A, h1, l1)"
    by (auto split: sum.splits option.splits)
  from Suc.prems(2) obtain Y1 hy ly where y: "level_step WIDTH clen (Y, h, l) = Inr (Some (Y1, hy, ly))"
    "walk_n WIDTH clen n (Y1, hy, ly) = Some (B, h2, l2)"
    by (auto split: sum.splits option.splits)
  from x(1) y(1) have e: "hy = hx" "ly = lx"
    by (auto simp: level_step_def split: sum.splits option.splits)
  from level_step_append[OF x(1) y(1)] Suc.IH[OF x(2) y(2)[unfolded e]]
  show ?case by simp
qed

lemma walk_n_length:
  "walk_n WIDTH clen n s = Some s' \<Longrightarrow> length (fst s) = 2 ^ n * length (fst s')"
proof (induction n arbitrary: s)
  case 0
  then show ?case by simp
next
  case (Suc n)
  from Suc.prems obtain s1 where s1: "level_step WIDTH clen s = Inr (Some s1)"
    "walk_n WIDTH clen n s1 = Some s'"
    by (auto split: sum.splits option.splits)
  from level_step_Some[OF s1(1)] have "length (fst s) = 2 * length (fst s1)" by auto
  with Suc.IH[OF s1(2)] show ?case by simp
qed

lemma walk_n_verify:
  "walk_n WIDTH clen n s = Some s' \<Longrightarrow> 1 \<le> length (fst s') \<Longrightarrow>
   verify_walk WIDTH clen s = verify_walk WIDTH clen s'"
proof (induction n arbitrary: s)
  case 0
  then show ?case by simp
next
  case (Suc n)
  from Suc.prems obtain s1 where s1: "level_step WIDTH clen s = Inr (Some s1)"
    "walk_n WIDTH clen n s1 = Some s'"
    by (auto split: sum.splits option.splits)
  from walk_n_length[OF Suc.prems(1)] Suc.prems(2) have "2 ^ Suc n \<le> length (fst s)"
    by simp
  moreover have "(2::nat) \<le> 2 ^ Suc n" by simp
  ultimately have "1 < length (fst s)" by linarith
  then have "verify_walk WIDTH clen s = verify_walk WIDTH clen s1"
    using s1(1) by (subst verify_walk.simps) simp
  with Suc.IH[OF s1(2) Suc.prems(2)] show ?case by simp
qed

lemma verifier_widths_okD:
  "verifier_widths_ok N K WIDTH \<Longrightarrow> lev \<le> K \<Longrightarrow>
   ExpandedHashLength N K - lev * CollisionByteLength N K + 4 * 2 ^ lev \<le> WIDTH"
  by (cases "lev = K") (auto simp: verifier_widths_ok_def list_all_iff)

lemma level_len:
  "lev \<le> K \<Longrightarrow> ExpandedHashLength N K - lev * CollisionByteLength N K =
     (K + 1 - lev) * CollisionByteLength N K"
  by (simp add: ExpandedHashLength_def diff_mult_distrib)

lemma pair_step:
  assumes mw: "merge_widths_ok WIDTH WIDTH len li clen"
    and la: "length a' = WIDTH" and lb: "length b' = WIDTH"
    and col: "HasCollision a' b' clen" and dist: "DistinctIndices a' b' len li"
    and ord: "Full_IndicesBefore a' b' len li"
    and asym: "\<not> Full_IndicesBefore b' a' len li"
  shows "level_step WIDTH clen ([a', b'], len, li) =
           Inr (Some ([FullStepRow_merge WIDTH a' b' len li clen], len - clen, li * 2))"
proof -
  have "verify_pairs WIDTH clen [a', b'] len li 0 [] =
        verify_pairs WIDTH clen [a', b'] len li (0 + 2) ([] @ [FullStepRow_merge WIDTH a' b' len li clen])"
    using col dist asym by (subst verify_pairs.simps) simp
  also have "\<dots> = Inr (Some [FullStepRow_merge WIDTH a' b' len li clen])"
    by (subst verify_pairs.simps) simp
  finally show ?thesis by (simp add: level_step_def)
qed

lemma Full_IndicesBefore_agree:
  assumes "agree n a a'" "agree n b b'" "h + l \<le> n" "n \<le> length a" "n \<le> length a'"
    "n \<le> length b" "n \<le> length b'"
  shows "Full_IndicesBefore a' b' h l = Full_IndicesBefore a b h l"
  unfolding Full_IndicesBefore_def
proof (rule memcmp_less_cong)
  fix j assume "j < l"
  then have "h + j < n" using assms(3) by simp
  from agree_nth[OF assms(1) this] agree_nth[OF assms(2) this]
  show "drop h a' ! j = drop h a ! j" "drop h b' ! j = drop h b ! j"
    using assms(3-7) by simp_all
qed

lemma pair_walk:
  assumes vw: "verifier_widths_ok N K WIDTH" and lev: "lev < K"
    and da: "derived N K WIDTH base_state lev a" and db: "derived N K WIDTH base_state lev b"
    and col: "HasCollision a b (CollisionByteLength N K)"
    and dist: "DistinctIndices a b (ExpandedHashLength N K - lev * CollisionByteLength N K) (4 * 2 ^ lev)"
  shows "\<exists>m'. walk_n WIDTH (CollisionByteLength N K) (Suc lev)
           (map (FullStepRow_new WIDTH N K base_state)
              (if Full_IndicesBefore a b (ExpandedHashLength N K - lev * CollisionByteLength N K) (4 * 2 ^ lev)
               then GetIndices a (ExpandedHashLength N K - lev * CollisionByteLength N K) (4 * 2 ^ lev) @
                    GetIndices b (ExpandedHashLength N K - lev * CollisionByteLength N K) (4 * 2 ^ lev)
               else GetIndices b (ExpandedHashLength N K - lev * CollisionByteLength N K) (4 * 2 ^ lev) @
                    GetIndices a (ExpandedHashLength N K - lev * CollisionByteLength N K) (4 * 2 ^ lev)),
            ExpandedHashLength N K, 4) =
          Some ([m'], ExpandedHashLength N K - Suc lev * CollisionByteLength N K, 4 * 2 ^ Suc lev) \<and>
        length m' = WIDTH \<and>
        (\<forall>p < ExpandedHashLength N K - Suc lev * CollisionByteLength N K + 4 * 2 ^ Suc lev.
           m' ! p =
             (if p < ExpandedHashLength N K - Suc lev * CollisionByteLength N K
              then a ! (CollisionByteLength N K + p) XOR b ! (CollisionByteLength N K + p)
              else if p < ExpandedHashLength N K - Suc lev * CollisionByteLength N K + 4 * 2 ^ lev
              then (if Full_IndicesBefore a b (ExpandedHashLength N K - lev * CollisionByteLength N K) (4 * 2 ^ lev)
                    then a else b) !
                   (ExpandedHashLength N K - lev * CollisionByteLength N K +
                    (p - (ExpandedHashLength N K - Suc lev * CollisionByteLength N K)))
              else (if Full_IndicesBefore a b (ExpandedHashLength N K - lev * CollisionByteLength N K) (4 * 2 ^ lev)
                    then b else a) !
                   (ExpandedHashLength N K - lev * CollisionByteLength N K +
                    (p - (ExpandedHashLength N K - Suc lev * CollisionByteLength N K + 4 * 2 ^ lev)))))"
proof -
  define c where "c = CollisionByteLength N K"
  define len where "len = ExpandedHashLength N K - lev * c"
  define li :: nat where "li = 4 * 2 ^ lev"
  define mk where "mk = FullStepRow_new WIDTH N K base_state"
  have len': "ExpandedHashLength N K - Suc lev * c = len - c" by (simp add: len_def)
  have li': "4 * 2 ^ Suc lev = 2 * li" by (simp add: li_def)
  have "1 \<le> K + 1 - lev" using lev by simp
  then have "1 * c \<le> (K + 1 - lev) * c" by (rule mult_le_mono1)
  then have cle: "c \<le> len"
    using lev level_len[of lev K N] by (simp add: len_def c_def)
  have li4: "4 \<le> li" "4 dvd li" "0 < li" by (simp_all add: li_def)
  have w1: "len + li \<le> WIDTH"
    using verifier_widths_okD[OF vw, of lev] lev by (simp add: len_def li_def c_def)
  have w2: "len - c + 2 * li \<le> WIDTH"
    using verifier_widths_okD[OF vw, of "Suc lev"] lev len' by (simp add: li_def c_def)
  have mw: "merge_widths_ok WIDTH WIDTH len li c"
    using w1 w2 cle by (simp add: merge_widths_ok_def)
  from da obtain a' where a': "walk_n WIDTH c lev (map mk (GetIndices a len li), ExpandedHashLength N K, 4) =
      Some ([a'], len, li)" "agree (len + li) a' a" "length a' = WIDTH" "len + li \<le> length a"
    unfolding derived_def c_def len_def li_def mk_def by blast
  from db obtain b' where b': "walk_n WIDTH c lev (map mk (GetIndices b len li), ExpandedHashLength N K, 4) =
      Some ([b'], len, li)" "agree (len + li) b' b" "length b' = WIDTH" "len + li \<le> length b"
    unfolding derived_def c_def len_def li_def mk_def by blast
  have ga: "GetIndices a' len li = GetIndices a len li"
    using a' w1 li4 by (intro GetIndices_agree[OF a'(2)]) simp_all
  have gb: "GetIndices b' len li = GetIndices b len li"
    using b' w1 li4 by (intro GetIndices_agree[OF b'(2)]) simp_all
  have ib: "Full_IndicesBefore a' b' len li = Full_IndicesBefore a b len li"
    using a' b' w1 li4 by (intro Full_IndicesBefore_agree[OF agree_sym[OF a'(2)] agree_sym[OF b'(2)]]) simp_all
  have ib2: "Full_IndicesBefore b' a' len li = Full_IndicesBefore b a len li"
    using a' b' w1 li4 by (intro Full_IndicesBefore_agree[OF agree_sym[OF b'(2)] agree_sym[OF a'(2)]]) simp_all
  have col': "HasCollision a' b' c"
    using HasCollision_agree[OF agree_sym[OF a'(2)] agree_sym[OF b'(2)], of c] cle col
    by (simp add: c_def)
  have dist0: "DistinctIndices a b len li"
    using dist by (simp add: len_def li_def c_def)
  have dist': "DistinctIndices a' b' len li"
    using dist0 by (simp add: DistinctIndices_iff ga gb)
  have ne: "ArrayToEhIndex (drop len a) \<noteq> ArrayToEhIndex (drop len b)"
  proof -
    have "hd (GetIndices a len li) \<in> set (GetIndices a len li)"
      using GetIndices_nonempty[OF li4(3)] by simp
    moreover have "hd (GetIndices b len li) \<in> set (GetIndices b len li)"
      using GetIndices_nonempty[OF li4(3)] by simp
    ultimately have "hd (GetIndices a len li) \<noteq> hd (GetIndices b len li)"
      using dist0 by (auto simp: DistinctIndices_iff)
    then show ?thesis by (simp add: hd_GetIndices[OF li4(3)])
  qed
  have nth_a: "a' ! q = a ! q" if "q < len + li" for q using agree_nth[OF a'(2) that] .
  have nth_b: "b' ! q = b ! q" if "q < len + li" for q using agree_nth[OF b'(2) that] .
  show ?thesis
  proof (cases "Full_IndicesBefore a b len li")
    case True
    then have asym: "\<not> Full_IndicesBefore b' a' len li"
      unfolding ib2 by (rule Full_IndicesBefore_asym)
    define m' where "m' = FullStepRow_merge WIDTH a' b' len li c"
    have st: "level_step WIDTH c ([a', b'], len, li) = Inr (Some ([m'], len - c, li * 2))"
      unfolding m'_def using True ib
      by (intro pair_step[OF mw a'(3) b'(3) col' dist' _ asym]) simp
    have "walk_n WIDTH c lev (map mk (GetIndices a len li @ GetIndices b len li), ExpandedHashLength N K, 4) =
          Some ([a'] @ [b'], len, li)"
      using walk_n_append[OF a'(1) b'(1)] by simp
    then have w: "walk_n WIDTH c (Suc lev) (map mk (GetIndices a len li @ GetIndices b len li), ExpandedHashLength N K, 4) =
          Some ([m'], len - c, 2 * li)"
      using st by (subst walk_n_snoc) (simp add: mult.commute)
    have n: "m' ! p =
             (if p < len - c then a ! (c + p) XOR b ! (c + p)
              else if p < len - c + li then a ! (len + (p - (len - c)))
              else b ! (len + (p - (len - c + li))))" if "p < len - c + 2 * li" for p
    proof -
      have "m' ! p = (if p < len - c then a' ! (c + p) XOR b' ! (c + p)
              else if p < len - c + li then a' ! (len + (p - (len - c)))
              else b' ! (len + (p - (len - c + li))))"
        unfolding m'_def FullStepRow_merge_def
        using StepRow_merge_nth[OF mw that, of Full_IndicesBefore a' b'] True ib by simp
      also have "\<dots> = (if p < len - c then a ! (c + p) XOR b ! (c + p)
              else if p < len - c + li then a ! (len + (p - (len - c)))
              else b ! (len + (p - (len - c + li))))"
        using that cle by (auto simp: nth_a nth_b)
      finally show ?thesis .
    qed
    have lm: "length m' = WIDTH" by (simp add: m'_def FullStepRow_merge_def)
    from w n lm True show ?thesis
      unfolding len' li' len_def[symmetric] li_def[symmetric] c_def[symmetric] mk_def[symmetric]
      by (intro exI[of _ m']) simp
  next
    case False
    with ne have ba: "Full_IndicesBefore b a len li"
      using Full_IndicesBefore_leftmost[OF li4(1) ne] Full_IndicesBefore_leftmost[OF li4(1) ne[symmetric]]
      by auto
    then have ord: "Full_IndicesBefore b' a' len li" by (simp add: ib2)
    have asym: "\<not> Full_IndicesBefore a' b' len li" using False by (simp add: ib)
    define m' where "m' = FullStepRow_merge WIDTH b' a' len li c"
    have st: "level_step WIDTH c ([b', a'], len, li) = Inr (Some ([m'], len - c, li * 2))"
      unfolding m'_def
      by (intro pair_step[OF mw b'(3) a'(3) HasCollision_sym[OF col'] DistinctIndices_sym[OF dist'] ord asym])
    have "walk_n WIDTH c lev (map mk (GetIndices b len li @ GetIndices a len li), ExpandedHashLength N K, 4) =
          Some ([b'] @ [a'], len, li)"
      using walk_n_append[OF b'(1) a'(1)] by simp
    then have w: "walk_n WIDTH c (Suc lev) (map mk (GetIndices b len li @ GetIndices a len li), ExpandedHashLength N K, 4) =
          Some ([m'], len - c, 2 * li)"
      using st by (subst walk_n_snoc) (simp add: mult.commute)
    have n: "m' ! p =
             (if p < len - c then a ! (c + p) XOR b ! (c + p)
              else if p < len - c + li then b ! (len + (p - (len - c)))
              else a ! (len + (p - (len - c + li))))" if "p < len - c + 2 * li" for p
    proof -
      have "m' ! p = (if p < len - c then b' ! (c + p) XOR a' ! (c + p)
              else if p < len - c + li then b' ! (len + (p - (len - c)))
              else a' ! (len + (p - (len - c + li))))"
        unfolding m'_def FullStepRow_merge_def
        using StepRow_merge_nth[OF mw that, of Full_IndicesBefore b' a'] ord by simp
      also have "\<dots> = (if p < len - c then a ! (c + p) XOR b ! (c + p)
              else if p < len - c + li then b ! (len + (p - (len - c)))
              else a ! (len + (p - (len - c + li))))"
        using that cle by (auto simp: nth_a nth_b xor.commute)
      finally show ?thesis .
    qed
    have lm: "length m' = WIDTH" by (simp add: m'_def FullStepRow_merge_def)
    from w n lm False show ?thesis
      unfolding len' li' len_def[symmetric] li_def[symmetric] c_def[symmetric] mk_def[symmetric]
      by (intro exI[of _ m']) simp
  qed
qed

lemma basic_widths_okD:
  "basic_widths_ok N K FW FFW \<Longrightarrow> lev < K \<Longrightarrow>
   ExpandedHashLength N K - lev * CollisionByteLength N K + 4 * 2 ^ lev \<le> FW"
  by (simp add: basic_widths_ok_def list_all_iff)

lemma basic_widths_verifier:
  assumes "basic_widths_ok N K FW FFW"
  shows "verifier_widths_ok N K FFW"
proof -
  have "ExpandedHashLength N K - lev * CollisionByteLength N K + 4 * 2 ^ lev \<le> FFW" if "lev \<le> K" for lev
  proof (cases "lev = K")
    case True
    have "ExpandedHashLength N K - K * CollisionByteLength N K = CollisionByteLength N K"
      using level_len[of K K N] by simp
    with True assms show ?thesis by (simp add: basic_widths_ok_def)
  next
    case False
    with that have "lev < K" by simp
    from basic_widths_okD[OF assms this] assms show ?thesis by (simp add: basic_widths_ok_def)
  qed
  then show ?thesis by (simp add: verifier_widths_ok_def list_all_iff)
qed

lemma leaf_derived:
  assumes "ExpandedHashLength N K + 4 \<le> FW" "ExpandedHashLength N K + 4 \<le> FFW"
  shows "derived N K FFW base_state 0 (FullStepRow_new FW N K base_state i)"
  unfolding derived_def
  using assms FullStepRow_new_agree[OF assms(2,1), of base_state i]
  by (intro exI[of _ "FullStepRow_new FFW N K base_state i"]) (simp add: GetIndices_new)

lemma merged_derived:
  assumes vw: "verifier_widths_ok N K FFW" and lev: "lev < K"
    and da: "derived N K FFW base_state lev a" and db: "derived N K FFW base_state lev b"
    and col: "HasCollision a b (CollisionByteLength N K)"
    and dist: "DistinctIndices a b (ExpandedHashLength N K - lev * CollisionByteLength N K) (4 * 2 ^ lev)"
    and mw: "merge_widths_ok (length a) W (ExpandedHashLength N K - lev * CollisionByteLength N K)
               (4 * 2 ^ lev) (CollisionByteLength N K)"
    and lb: "length b = length a"
  shows "derived N K FFW base_state (Suc lev)
           (FullStepRow_merge W a b (ExpandedHashLength N K - lev * CollisionByteLength N K)
              (4 * 2 ^ lev) (CollisionByteLength N K))"
proof -
  define c where "c = CollisionByteLength N K"
  define len where "len = ExpandedHashLength N K - lev * c"
  define li :: nat where "li = 4 * 2 ^ lev"
  define m where "m = FullStepRow_merge W a b len li c"
  define ib where "ib = Full_IndicesBefore a b len li"
  have len': "ExpandedHashLength N K - Suc lev * c = len - c" by (simp add: len_def)
  have li': "4 * 2 ^ Suc lev = 2 * li" by (simp add: li_def)
  have li4: "4 dvd li" by (simp add: li_def)
  note mw' = mw[folded c_def, folded len_def li_def]
  from mw' have ws: "len + li \<le> length a" "len - c + 2 * li \<le> W" "c \<le> len"
    unfolding merge_widths_ok_def by auto
  have lm: "length m = W" by (simp add: m_def FullStepRow_merge_def)
  from pair_walk[OF vw lev da db col dist]
  obtain m' where m': "walk_n FFW c (Suc lev)
           (map (FullStepRow_new FFW N K base_state)
              (if ib then GetIndices a len li @ GetIndices b len li
               else GetIndices b len li @ GetIndices a len li),
            ExpandedHashLength N K, 4) = Some ([m'], len - c, 2 * li)"
     "length m' = FFW"
     "\<And>p. p < len - c + 2 * li \<Longrightarrow> m' ! p =
             (if p < len - c then a ! (c + p) XOR b ! (c + p)
              else if p < len - c + li then (if ib then a else b) ! (len + (p - (len - c)))
              else (if ib then b else a) ! (len + (p - (len - c + li))))"
    unfolding c_def[symmetric] len_def[symmetric] li_def[symmetric] len' li' ib_def[symmetric]
    by blast
  have w2: "len - c + 2 * li \<le> FFW"
    using verifier_widths_okD[OF vw, of "Suc lev"] lev len' li' by (simp add: c_def)
  have hist: "take (2 * li) (drop (len - c) m) =
      (if ib then take li (drop len a) @ take li (drop len b)
       else take li (drop len b) @ take li (drop len a))"
    unfolding m_def FullStepRow_merge_def ib_def by (rule StepRow_merge_history[OF mw' lb])
  have gi: "GetIndices m (len - c) (2 * li) =
      (if ib then GetIndices a len li @ GetIndices b len li
       else GetIndices b len li @ GetIndices a len li)"
  proof (cases ib)
    case True
    with hist have "take (2 * li) (drop (len - c) m) = take li (drop len a) @ take li (drop len b)" by simp
    from GetIndices_double[OF li4 _ _ _ this] ws lm lb True show ?thesis by simp
  next
    case False
    with hist have "take (2 * li) (drop (len - c) m) = take li (drop len b) @ take li (drop len a)" by simp
    from GetIndices_double[OF li4 _ _ _ this] ws lm lb False show ?thesis by simp
  qed
  have ag: "agree (len - c + 2 * li) m' m"
  proof (rule agreeI)
    fix p assume p: "p < len - c + 2 * li"
    have "m ! p = (if p < len - c then a ! (c + p) XOR b ! (c + p)
              else if p < len - c + li then (if ib then a else b) ! (len + (p - (len - c)))
              else (if ib then b else a) ! (len + (p - (len - c + li))))"
      unfolding m_def FullStepRow_merge_def ib_def by (rule StepRow_merge_nth[OF mw' p])
    with m'(3)[OF p] show "m' ! p = m ! p" by simp
  qed (use m'(2) w2 lm ws in simp_all)
  show ?thesis
    unfolding derived_def c_def[symmetric] len_def[symmetric] li_def[symmetric] len' li' m_def[symmetric]
    using m'(1,2) ag gi ws lm by (intro exI[of _ m']) simp
qed

lemma final_valid:
  assumes vw: "verifier_widths_ok N K FFW" and K: "1 \<le> K"
    and da: "derived N K FFW base_state (K - 1) a" and db: "derived N K FFW base_state (K - 1) b"
    and col: "HasCollision a b (ExpandedHashLength N K - (K - 1) * CollisionByteLength N K)"
    and dist: "DistinctIndices a b (ExpandedHashLength N K - (K - 1) * CollisionByteLength N K) (4 * 2 ^ (K - 1))"
    and mw: "merge_widths_ok (length a) FFW (ExpandedHashLength N K - (K - 1) * CollisionByteLength N K)
               (4 * 2 ^ (K - 1)) 0"
    and lb: "length b = length a"
  shows "IsValidSolution N K FFW base_state
           (GetIndices (FullStepRow_merge FFW a b (ExpandedHashLength N K - (K - 1) * CollisionByteLength N K)
                          (4 * 2 ^ (K - 1)) 0)
              (ExpandedHashLength N K - (K - 1) * CollisionByteLength N K) (2 * (4 * 2 ^ (K - 1)))) = Inr True"
proof -
  define lev where "lev = K - 1"
  define c where "c = CollisionByteLength N K"
  define len where "len = ExpandedHashLength N K - lev * c"
  define li :: nat where "li = 4 * 2 ^ lev"
  define res where "res = FullStepRow_merge FFW a b len li 0"
  define ib where "ib = Full_IndicesBefore a b len li"
  define idxs where "idxs = (if ib then GetIndices a len li @ GetIndices b len li
               else GetIndices b len li @ GetIndices a len li)"
  have lev: "lev < K" "Suc lev = K" using K by (simp_all add: lev_def)
  have "K + 1 - lev = 2" using lev by linarith
  then have len2: "len = 2 * c" using level_len[of lev K N] lev(1) by (simp add: len_def c_def)
  have len': "ExpandedHashLength N K - Suc lev * c = c" using len2 by (simp add: len_def)
  have li': "4 * 2 ^ Suc lev = 2 * li" by (simp add: li_def)
  have li4: "4 dvd li" by (simp add: li_def)
  note mw' = mw[folded lev_def, folded c_def, folded len_def li_def]
  from mw' have ws: "len + li \<le> length a" "len + 2 * li \<le> FFW"
    unfolding merge_widths_ok_def by auto
  have lr: "length res = FFW" by (simp add: res_def FullStepRow_merge_def)
  have hist: "take (2 * li) (drop (len - 0) res) =
      (if ib then take li (drop len a) @ take li (drop len b)
       else take li (drop len b) @ take li (drop len a))"
    unfolding res_def FullStepRow_merge_def ib_def by (rule StepRow_merge_history[OF mw' lb])
  have gi: "GetIndices res len (2 * li) = idxs"
  proof (cases ib)
    case True
    with hist have "take (2 * li) (drop len res) = take li (drop len a) @ take li (drop len b)" by simp
    from GetIndices_double[OF li4 _ _ _ this] ws lr lb True show ?thesis by (simp add: idxs_def)
  next
    case False
    with hist have "take (2 * li) (drop len res) = take li (drop len b) @ take li (drop len a)" by simp
    from GetIndices_double[OF li4 _ _ _ this] ws lr lb False show ?thesis by (simp add: idxs_def)
  qed
  have col2: "HasCollision a b (2 * c)"
    using col[folded lev_def, folded c_def, folded len_def] len2 by simp
  have colc: "HasCollision a b c"
    by (rule HasCollision_mono[OF col2]) simp
  from pair_walk[OF vw lev(1) da[folded lev_def] db[folded lev_def] colc[unfolded c_def] dist[folded lev_def]]
  obtain m' where m'1: "walk_n FFW c (Suc lev)
           (map (FullStepRow_new FFW N K base_state) idxs, ExpandedHashLength N K, 4) = Some ([m'], c, 2 * li)"
     and m'3: "\<And>p. p < c + 2 * li \<Longrightarrow> m' ! p =
             (if p < c then a ! (c + p) XOR b ! (c + p)
              else if p < c + li then (if ib then a else b) ! (len + (p - c))
              else (if ib then b else a) ! (len + (p - (c + li))))"
    unfolding c_def[symmetric] len_def[symmetric] li_def[symmetric] len' li' ib_def[symmetric] idxs_def[symmetric]
    by blast
  have m'2: "m' ! p = a ! (c + p) XOR b ! (c + p)" if "p < c" for p
    using m'3[of p] that by simp
  have z: "IsZero m' c"
  proof -
    have "m' ! j = 0" if "j < c" for j
    proof -
      from col2 that
      have "a ! (c + j) = b ! (c + j)" by (simp add: HasCollision_iff)
      with m'2[OF that] show ?thesis by simp
    qed
    then show ?thesis by (simp add: IsZero_iff)
  qed
  have "length idxs = 2 * (li div 4)"
    by (simp add: idxs_def GetIndices_length[OF li4])
  also have "\<dots> = 2 ^ Suc lev" by (simp add: li_def)
  also have "\<dots> = 2 ^ K" by (simp only: lev(2))
  finally have ls: "length idxs = 2 ^ K" .
  have "verify_walk FFW c (map (FullStepRow_new FFW N K base_state) idxs, ExpandedHashLength N K, 4) =
        verify_walk FFW c ([m'], c, 2 * li)"
    using m'1 unfolding lev(2) by (rule walk_n_verify) simp
  also have "\<dots> = Inr (IsZero m' c)" by (subst verify_walk.simps) simp
  finally have "IsValidSolution N K FFW base_state idxs = Inr True"
    using ls z by (simp add: IsValidSolution_def c_def)
  then show ?thesis
    unfolding lev_def[symmetric] c_def[symmetric] len_def[symmetric] li_def[symmetric] res_def[symmetric] gi .
qed

lemma generate_never:
  assumes "\<forall>log l. \<not> cancelled log l"
  shows "\<exists>log'. generate cancelled L mk idxs log = (log', Inr (map mk idxs))"
proof (induction idxs arbitrary: log)
  case Nil
  show ?case by simp
next
  case (Cons i idxs)
  from Cons[of "L # log"] obtain log' where g: "generate cancelled L mk idxs (L # log) = (log', Inr (map mk idxs))"
    by blast
  from assms have nc: "\<not> cancelled log L" by simp
  show ?case by (simp add: nc g)
qed

lemma HasCollision_refl [simp]: "HasCollision a a l"
  by (simp add: HasCollision_iff)

lemma all_pairs_set:
  "m \<in> set (all_pairs emit R) \<Longrightarrow> \<exists>a b. a \<in> set R \<and> b \<in> set R \<and> emit a b = Some m"
proof (induction R)
  case Nil
  then show ?case by simp
next
  case (Cons x R)
  from Cons.prems consider "m \<in> set (List.map_filter (emit x) R)" | "m \<in> set (all_pairs emit R)"
    by auto
  then show ?case
  proof cases
    case 1
    then obtain b where "b \<in> set R" "emit x b = Some m"
      by (auto simp: List.map_filter_def)
    then show ?thesis by auto
  next
    case 2
    from Cons.IH[OF this] show ?thesis by auto
  qed
qed

lemma merges_of_runs_set:
  "m \<in> set (merges_of_runs emit clen X) \<Longrightarrow>
   \<exists>a b. a \<in> set X \<and> b \<in> set X \<and> HasCollision a b clen \<and> emit a b = Some m"
proof (induction emit clen X rule: merges_of_runs.induct)
  case (1 emit clen)
  then show ?case by simp
next
  case (2 emit clen x xs)
  let ?P = "\<lambda>y. HasCollision x y clen"
  from "2.prems" consider "m \<in> set (all_pairs emit (x # takeWhile ?P xs))"
    | "m \<in> set (merges_of_runs emit clen (dropWhile ?P xs))" by auto
  then show ?case
  proof cases
    case 1
    from all_pairs_set[OF this] obtain a b where ab: "a \<in> set (x # takeWhile ?P xs)"
      "b \<in> set (x # takeWhile ?P xs)" "emit a b = Some m" by blast
    have c: "HasCollision x y clen" if "y \<in> set (x # takeWhile ?P xs)" for y
      using that by (auto dest: set_takeWhileD)
    have "HasCollision a b clen"
      using HasCollision_trans[OF HasCollision_sym[OF c[OF ab(1)]] c[OF ab(2)]] .
    moreover have "a \<in> set (x # xs)" "b \<in> set (x # xs)"
      using ab(1,2) by (auto dest: set_takeWhileD)
    ultimately show ?thesis using ab(3) by blast
  next
    case 2
    from "2.IH"[OF this] obtain a b where "a \<in> set (dropWhile ?P xs)" "b \<in> set (dropWhile ?P xs)"
      "HasCollision a b clen" "emit a b = Some m" by blast
    then show ?thesis by (auto dest: set_dropWhileD)
  qed
qed

lemma find_run_collides:
  assumes "i < length X" "m < find_run X i 1 clen"
  shows "HasCollision (X ! i) (X ! (i + m)) clen"
proof (cases m)
  case 0
  then show ?thesis by simp
next
  case (Suc k)
  let ?P = "\<lambda>y. HasCollision (X ! i) y clen"
  let ?t = "takeWhile ?P (drop (i + 1) X)"
  have j: "find_run X i 1 clen = 1 + length ?t"
    using assms(1) by (intro find_run_takeWhile) simp
  with assms(2) Suc have k: "k < length ?t" by simp
  then have "?t ! k \<in> set ?t" by simp
  then have "?P (?t ! k)" by (rule set_takeWhileD[THEN conjunct2])
  moreover have "?t ! k = drop (i + 1) X ! k" using k by (rule takeWhile_nth)
  moreover have "k < length (drop (i + 1) X)"
    using k length_takeWhile_le[of ?P "drop (i + 1) X"] by linarith
  then have "drop (i + 1) X ! k = X ! (i + Suc k)" by simp
  ultimately show ?thesis using Suc by simp
qed

lemma fold_invariant:
  assumes "\<And>x s. x \<in> set xs \<Longrightarrow> I s \<Longrightarrow> I (f x s)" "I s"
  shows "I (fold f xs s)"
  using assms by (induction xs arbitrary: s) simp_all

lemma final_loop_invariant:
  assumes never: "\<forall>log l. \<not> cancelled log l"
    and step: "\<forall>a b acc. a \<in> set X \<longrightarrow> b \<in> set X \<longrightarrow> HasCollision a b hashLen \<longrightarrow> I acc \<longrightarrow> I (add a b acc)"
    and init: "I acc"
  shows "\<exists>log' r. final_loop cancelled add X hashLen i acc log = (log', Inr r) \<and> I r"
  using never step init
proof (induction cancelled add X hashLen i acc log rule: final_loop.induct)
  case (1 cancelled add X hashLen i acc log)
  show ?case
  proof (cases "i < length X - 1")
    case False
    with "1.prems"(3) show ?thesis by (subst final_loop.simps) simp
  next
    case True
    note never = "1.prems"(1)
    define j where "j = find_run X i 1 hashLen"
    have il: "i < length X" using True by simp
    have jb: "i + j \<le> length X" unfolding j_def using il by (intro find_run_bound) simp
    define acc' where "acc' = fold (\<lambda>l acc. fold (\<lambda>m acc. add (X ! (i + l)) (X ! (i + m)) acc) [l + 1..<j] acc) [0..<j - 1] acc"
    have "I acc'"
      unfolding acc'_def
    proof (rule fold_invariant[where I = I])
      fix l s assume l: "l \<in> set [0..<j - 1]" and s: "I s"
      show "I (fold (\<lambda>m acc. add (X ! (i + l)) (X ! (i + m)) acc) [l + 1..<j] s)"
      proof (rule fold_invariant[where I = I])
        fix m s' assume m: "m \<in> set [l + 1..<j]" and s': "I s'"
        from l m have lj: "l < j" "m < j" by auto
        have cl: "HasCollision (X ! i) (X ! (i + l)) hashLen"
          using find_run_collides[OF il, of l hashLen] lj by (simp add: j_def)
        have cm: "HasCollision (X ! i) (X ! (i + m)) hashLen"
          using find_run_collides[OF il, of m hashLen] lj by (simp add: j_def)
        have "X ! (i + l) \<in> set X" "X ! (i + m) \<in> set X" using lj jb by simp_all
        then show "I (add (X ! (i + l)) (X ! (i + m)) s')"
          using HasCollision_trans[OF HasCollision_sym[OF cl] cm] s' "1.prems"(2) by blast
      qed (rule s)
    qed (rule "1.prems"(3))
    from never have nc: "\<not> cancelled log FinalColliding" by simp
    from "1.IH"[OF True nc "1.prems"(1,2)] \<open>I acc'\<close>
    obtain log' r where "final_loop cancelled add X hashLen (i + j) acc' (FinalColliding # log) = (log', Inr r)" "I r"
      unfolding acc'_def j_def by blast
    with True nc show ?thesis
      by (subst final_loop.simps) (simp add: acc'_def j_def)
  qed
qed

lemma basic_round_rows:
  assumes bw: "basic_widths_ok N K FW FFW" and r: "1 \<le> r" "r < K"
    and inv: "\<forall>x \<in> set X. derived N K FFW base_state (r - 1) x \<and> length x = FW"
    and m: "m \<in> set (merges_of_runs
              (basic_emit FW (CollisionByteLength N K)
                 (ExpandedHashLength N K - (r - 1) * CollisionByteLength N K) (4 * 2 ^ (r - 1)))
              (CollisionByteLength N K) X)"
  shows "derived N K FFW base_state r m \<and> length m = FW"
proof -
  define c where "c = CollisionByteLength N K"
  define lev where "lev = r - 1"
  define len where "len = ExpandedHashLength N K - lev * c"
  define li :: nat where "li = 4 * 2 ^ lev"
  have lev: "lev < K" "Suc lev = r" "Suc lev < K" using r by (simp_all add: lev_def)
  from merges_of_runs_set[OF m[folded c_def lev_def, folded len_def li_def]]
  obtain a b where ab: "a \<in> set X" "b \<in> set X" "HasCollision a b c"
    "basic_emit FW c len li a b = Some m" by blast
  from ab(4) have d: "DistinctIndices a b len li" and me: "m = FullStepRow_merge FW a b len li c"
    by (auto simp: basic_emit_def split: if_splits)
  from inv ab(1,2) have da: "derived N K FFW base_state lev a" "length a = FW"
    and db: "derived N K FFW base_state lev b" "length b = FW"
    by (auto simp: lev_def)
  have "1 \<le> K + 1 - lev" using lev by simp
  then have "1 * c \<le> (K + 1 - lev) * c" by (rule mult_le_mono1)
  then have cle: "c \<le> len"
    using lev level_len[of lev K N] by (simp add: len_def c_def)
  have w1: "len + li \<le> FW"
    using basic_widths_okD[OF bw lev(1)] by (simp add: len_def li_def c_def)
  have "ExpandedHashLength N K - Suc lev * c = len - c" by (simp add: len_def)
  then have w2: "len - c + 2 * li \<le> FW"
    using basic_widths_okD[OF bw lev(3)] by (simp add: li_def c_def)
  have mw: "merge_widths_ok (length a) FW len li c"
    using w1 w2 cle da(2) by (simp add: merge_widths_ok_def)
  have "derived N K FFW base_state (Suc lev) (FullStepRow_merge FW a b len li c)"
    unfolding len_def li_def c_def
    by (rule merged_derived[OF basic_widths_verifier[OF bw] lev(1) da(1) db(1)])
       (use ab(3) d mw da(2) db(2) in \<open>simp_all add: len_def li_def c_def\<close>)
  then show ?thesis by (simp add: me lev FullStepRow_merge_def)
qed

lemma solve_rounds_invariant:
  assumes never: "\<forall>log l. \<not> cancelled log l"
    and srt: "\<forall>len X. set (sortf len X) = set X"
    and bw: "basic_widths_ok N K FW FFW"
  shows "1 \<le> r \<Longrightarrow> r \<le> K \<Longrightarrow>
         \<forall>x \<in> set X. derived N K FFW base_state (r - 1) x \<and> length x = FW \<Longrightarrow>
         \<exists>log' X' r'.
           solve_rounds cancelled sortf (basic_emit FW (CollisionByteLength N K)) (CollisionByteLength N K)
             K r X (ExpandedHashLength N K - (r - 1) * CollisionByteLength N K) (4 * 2 ^ (r - 1)) log =
           (log', Inr (X', ExpandedHashLength N K - (r' - 1) * CollisionByteLength N K, 4 * 2 ^ (r' - 1))) \<and>
           1 \<le> r' \<and> r' \<le> K \<and>
           (\<forall>x \<in> set X'. derived N K FFW base_state (r' - 1) x \<and> length x = FW) \<and>
           (X' \<noteq> [] \<longrightarrow> r' = K)"
proof (induction "K - r" arbitrary: r X log)
  case 0
  then have "r = K" by simp
  then have "solve_rounds cancelled sortf (basic_emit FW (CollisionByteLength N K)) (CollisionByteLength N K)
             K r X (ExpandedHashLength N K - (r - 1) * CollisionByteLength N K) (4 * 2 ^ (r - 1)) log =
        (log, Inr (X, ExpandedHashLength N K - (r - 1) * CollisionByteLength N K, 4 * 2 ^ (r - 1)))"
    by (subst solve_rounds.simps) simp
  with "0.prems" \<open>r = K\<close> show ?case by blast
next
  case (Suc n)
  then have rK: "r < K" by simp
  define c where "c = CollisionByteLength N K"
  define len where "len = ExpandedHashLength N K - (r - 1) * c"
  define li :: nat where "li = 4 * 2 ^ (r - 1)"
  show ?case
  proof (cases "X = []")
    case True
    then have "solve_rounds cancelled sortf (basic_emit FW c) c K r X len li log = (log, Inr (X, len, li))"
      by (subst solve_rounds.simps) simp
    with Suc.prems True show ?thesis unfolding c_def len_def li_def by blast
  next
    case False
    from never have nc: "\<not> cancelled log ListSorting" by simp
    from scan_probed_mset[OF never, of ListColliding "basic_emit FW c len li" c "sortf c X" "ListSorting # log"]
    obtain log1 s where s: "scan_loop_probed cancelled ListColliding (basic_emit FW c len li) c (sortf c X) [] 0 0
        (ListSorting # log) = (log1, Inr s)"
      "mset (compact_end s) = mset (merges_of_runs (basic_emit FW c len li) c (sortf c X))" by blast
    from never have nc1: "\<not> cancelled log1 RoundEnd" by simp
    have inv': "\<forall>x \<in> set (compact_end s). derived N K FFW base_state (r + 1 - 1) x \<and> length x = FW"
    proof
      fix x assume "x \<in> set (compact_end s)"
      then have "x \<in> set (merges_of_runs (basic_emit FW c len li) c (sortf c X))"
        using s(2) by (metis set_mset_mset)
      moreover have "\<forall>x \<in> set (sortf c X). derived N K FFW base_state (r - 1) x \<and> length x = FW"
        using Suc.prems(3) srt by simp
      ultimately show "derived N K FFW base_state (r + 1 - 1) x \<and> length x = FW"
        using basic_round_rows[OF bw Suc.prems(1) rK, of "sortf c X" base_state x]
        by (simp add: c_def len_def li_def)
    qed
    have e1: "len - c = ExpandedHashLength N K - (r + 1 - 1) * c"
      using Suc.prems(1) by (cases r) (simp_all add: len_def)
    have e2: "li * 2 = 4 * 2 ^ (r + 1 - 1)"
      using Suc.prems(1) by (cases r) (simp_all add: li_def)
    from Suc.hyps(2) have n: "n = K - (r + 1)" by simp
    from Suc.hyps(1)[OF n _ _ inv', of "RoundEnd # log1"] rK
    obtain log' X' r' where rec: "solve_rounds cancelled sortf (basic_emit FW c) c K (r + 1) (compact_end s)
        (len - c) (li * 2) (RoundEnd # log1) =
        (log', Inr (X', ExpandedHashLength N K - (r' - 1) * c, 4 * 2 ^ (r' - 1)))"
      "1 \<le> r'" "r' \<le> K" "\<forall>x \<in> set X'. derived N K FFW base_state (r' - 1) x \<and> length x = FW"
      "X' \<noteq> [] \<longrightarrow> r' = K"
      unfolding c_def[symmetric] e1[symmetric] e2[symmetric] by auto
    have "solve_rounds cancelled sortf (basic_emit FW c) c K r X len li log =
          solve_rounds cancelled sortf (basic_emit FW c) c K (r + 1) (compact_end s)
            (len - c) (li * 2) (RoundEnd # log1)"
      using rK False nc nc1 s(1) by (subst solve_rounds.simps) simp
    with rec(1) have "solve_rounds cancelled sortf (basic_emit FW c) c K r X len li log =
        (log', Inr (X', ExpandedHashLength N K - (r' - 1) * c, 4 * 2 ^ (r' - 1)))" by simp
    with rec(2-) show ?thesis unfolding c_def len_def li_def
      by (intro exI[of _ log'] exI[of _ X'] exI[of _ r']) simp
  qed
qed

lemma basic_add_valid:
  assumes bw: "basic_widths_ok N K FW FFW" and K: "1 \<le> K"
    and da: "derived N K FFW base_state (K - 1) a" "length a = FW"
    and db: "derived N K FFW base_state (K - 1) b" "length b = FW"
    and col: "HasCollision a b (ExpandedHashLength N K - (K - 1) * CollisionByteLength N K)"
    and S: "\<forall>s \<in> S. IsValidSolution N K FFW base_state s = Inr True"
  shows "\<forall>s \<in> basic_add FFW (ExpandedHashLength N K - (K - 1) * CollisionByteLength N K) (4 * 2 ^ (K - 1)) a b S.
           IsValidSolution N K FFW base_state s = Inr True"
proof (cases "DistinctIndices a b (ExpandedHashLength N K - (K - 1) * CollisionByteLength N K) (4 * 2 ^ (K - 1))")
  case False
  with S show ?thesis by (simp add: basic_add_def)
next
  case True
  have lev: "K - 1 < K" using K by simp
  have l2: "ExpandedHashLength N K - (K - 1) * CollisionByteLength N K = 2 * CollisionByteLength N K"
    using level_len[of "K - 1" K N] K by (simp add: Suc_diff_le)
  have p: "(2::nat) * 2 ^ (K - 1) = 2 ^ K" using K by (cases K) simp_all
  have mw: "merge_widths_ok (length a) FFW (ExpandedHashLength N K - (K - 1) * CollisionByteLength N K)
               (4 * 2 ^ (K - 1)) 0"
    using basic_widths_okD[OF bw lev] bw da(2) l2 p by (simp add: merge_widths_ok_def basic_widths_ok_def)
  from final_valid[OF basic_widths_verifier[OF bw] K da(1) db(1) col True mw] da(2) db(2) S
  show ?thesis by (simp add: basic_add_def Let_def)
qed

lemma basic_sound:
  assumes never: "\<forall>log l. \<not> cancelled log l"
    and srt: "\<forall>len X. set (sortf len X) = set X"
    and bw: "basic_widths_ok N K FW FFW" and K: "1 \<le> K"
  shows "\<exists>log solns. BasicSolve sortf N K FW FFW base_state cancelled = (log, Inr solns) \<and>
           (\<forall>s \<in> solns. IsValidSolution N K FFW base_state s = Inr True)"
proof -
  define c where "c = CollisionByteLength N K"
  define idxs :: "eh_index list" where "idxs = map of_nat [0..<2 ^ (CollisionBitLength N K + 1)]"
  from generate_never[OF never, of ListGeneration "FullStepRow_new FW N K base_state" idxs "[]"]
  obtain log0 where g: "generate cancelled ListGeneration (FullStepRow_new FW N K base_state) idxs [] =
      (log0, Inr (map (FullStepRow_new FW N K base_state) idxs))" by blast
  have "0 < K" using K by simp
  from basic_widths_okD[OF bw this] have w0: "ExpandedHashLength N K + 4 \<le> FW" by simp
  with bw have w0': "ExpandedHashLength N K + 4 \<le> FFW" by (simp add: basic_widths_ok_def)
  have inv0: "\<forall>x \<in> set (map (FullStepRow_new FW N K base_state) idxs).
      derived N K FFW base_state (1 - 1) x \<and> length x = FW"
    using leaf_derived[OF w0 w0'] by auto
  from solve_rounds_invariant[OF never srt bw _ K inv0, of log0]
  obtain log1 X' r' where sr: "solve_rounds cancelled sortf (basic_emit FW c) c K 1
        (map (FullStepRow_new FW N K base_state) idxs) (ExpandedHashLength N K) 4 log0 =
      (log1, Inr (X', ExpandedHashLength N K - (r' - 1) * c, 4 * 2 ^ (r' - 1)))"
    "\<forall>x \<in> set X'. derived N K FFW base_state (r' - 1) x \<and> length x = FW" "X' \<noteq> [] \<longrightarrow> r' = K"
    unfolding c_def by auto
  define hashLen where "hashLen = ExpandedHashLength N K - (r' - 1) * c"
  define li :: nat where "li = 4 * 2 ^ (r' - 1)"
  have "\<exists>log solns. final_round cancelled sortf (basic_add FFW hashLen li) X' hashLen {} log1 = (log, Inr solns) \<and>
           (\<forall>s \<in> solns. IsValidSolution N K FFW base_state s = Inr True)"
  proof (cases "1 < length X'")
    case False
    then show ?thesis by (simp add: final_round_def)
  next
    case True
    then have rK: "r' = K" using sr(3) by auto
    from never have nc: "\<not> cancelled log1 FinalSorting" by simp
    have inv: "\<forall>x \<in> set (sortf hashLen X'). derived N K FFW base_state (K - 1) x \<and> length x = FW"
      using sr(2) srt rK by simp
    have step: "\<forall>a b acc. a \<in> set (sortf hashLen X') \<longrightarrow> b \<in> set (sortf hashLen X') \<longrightarrow>
        HasCollision a b hashLen \<longrightarrow> (\<forall>s \<in> acc. IsValidSolution N K FFW base_state s = Inr True) \<longrightarrow>
        (\<forall>s \<in> basic_add FFW hashLen li a b acc. IsValidSolution N K FFW base_state s = Inr True)"
      using basic_add_valid[OF bw K, of base_state] inv
      unfolding hashLen_def li_def rK c_def by blast
    from final_loop_invariant[OF never step, of "{}" 0 "FinalSorting # log1"]
    obtain log solns where "final_loop cancelled (basic_add FFW hashLen li) (sortf hashLen X') hashLen 0 {}
        (FinalSorting # log1) = (log, Inr solns)" "\<forall>s \<in> solns. IsValidSolution N K FFW base_state s = Inr True"
      by auto
    with True nc show ?thesis by (simp add: final_round_def)
  qed
  then show ?thesis
    using g sr(1) by (simp add: BasicSolve_def idxs_def c_def hashLen_def li_def)
qed

lemma insert_row_mset: "mset (insert_row len x ys) = add_mset x (mset ys)"
  by (induction ys) simp_all

lemma insertion_sort_mset: "mset (insertion_sort len X) = mset X"
  by (induction X) (simp_all add: insertion_sort_def insert_row_mset)

lemma CompareSR_alt: "CompareSR len a b = ord_class.lexordp (take len a) (take len b)"
  by (simp add: CompareSR_def List.lexordp_def lexordp_conv_lexord)

lemma CompareSR_asym: "CompareSR len a b \<Longrightarrow> \<not> CompareSR len b a"
  unfolding CompareSR_alt using lexordp_antisym by blast

lemma CompareSR_le_trans:
  "\<not> CompareSR len b a \<Longrightarrow> \<not> CompareSR len c b \<Longrightarrow> \<not> CompareSR len c a"
proof -
  assume 1: "\<not> CompareSR len b a" and 2: "\<not> CompareSR len c b"
  show "\<not> CompareSR len c a"
  proof
    assume 3: "CompareSR len c a"
    from lexordp_linear[of "take len b" "take len c"] 2
    consider "take len b = take len c" | "ord_class.lexordp (take len b) (take len c)"
      by (auto simp: CompareSR_alt)
    then show False
    proof cases
      case 1
      with 3 \<open>\<not> CompareSR len b a\<close> show False by (simp add: CompareSR_alt)
    next
      case 2
      from 3 have "ord_class.lexordp (take len c) (take len a)" by (simp add: CompareSR_alt)
      with 2 have "ord_class.lexordp (take len b) (take len a)" by (rule lexordp_trans)
      with \<open>\<not> CompareSR len b a\<close> show False by (simp add: CompareSR_alt)
    qed
  qed
qed

lemma insert_row_sorted:
  "sorted_wrt (\<lambda>a b. \<not> CompareSR len b a) ys \<Longrightarrow> sorted_wrt (\<lambda>a b. \<not> CompareSR len b a) (insert_row len x ys)"
proof (induction ys)
  case Nil
  show ?case by simp
next
  case (Cons y ys)
  show ?case
  proof (cases "CompareSR len x y")
    case True
    have "\<not> CompareSR len z x" if "z \<in> set ys" for z
    proof -
      from Cons.prems that have "\<not> CompareSR len z y" by simp
      with CompareSR_asym[OF True] show ?thesis by (rule CompareSR_le_trans)
    qed
    with True Cons.prems CompareSR_asym[OF True] show ?thesis by simp
  next
    case False
    have "set (insert_row len x ys) = insert x (set ys)"
      by (metis insert_row_mset set_mset_add_mset_insert set_mset_mset)
    with False Cons show ?thesis by simp
  qed
qed

lemma insertion_sort_spec: "std_sort_spec insertion_sort"
proof -
  have "sorted_wrt (\<lambda>a b. \<not> CompareSR len b a) (insertion_sort len X)" for len X
    by (induction X) (simp_all add: insertion_sort_def insert_row_sorted)
  then show ?thesis by (simp add: std_sort_spec_def insertion_sort_mset)
qed

lemma std_sort_spec_set: "std_sort_spec sortf \<Longrightarrow> \<forall>len X. set (sortf len X) = set X"
  unfolding std_sort_spec_def by (metis set_mset_mset)

section \<open>Claims about the basic solver\<close>

text \<open>
  C1. With a probe that never asks for cancellation, \<^verbatim>\<open>BasicSolve\<close> returns, and
  \<^verbatim>\<open>IsValidSolution\<close> returns true on every index sequence of the returned set. This
  holds for every base hash state, for every outcome of \<^verbatim>\<open>std::sort\<close> that is an ordered
  permutation of its input, and for all parameters with \<open>1 \<le> K\<close> whose row widths hold the
  rows of every level.
\<close>

theorem basic_solutions_valid:
  assumes "\<forall>log l. \<not> cancelled log l" and "std_sort_spec sortf"
    and "basic_widths_ok N K FullWidth FinalFullWidth" and "1 \<le> K"
  shows "\<exists>log solns.
           BasicSolve sortf N K FullWidth FinalFullWidth base_state cancelled = (log, Inr solns) \<and>
           (\<forall>s \<in> solns. IsValidSolution N K FinalFullWidth base_state s = Inr True)"
  using assms(1) std_sort_spec_set[OF assms(2)] assms(3,4) by (rule basic_sound)

theorem basic_solutions_valid_witness:
  "basic_widths_ok 48 5 66 130 \<and>
   (\<exists>log solns.
      BasicSolve insertion_sort 48 5 66 130 (\<lambda>m p. 0) (\<lambda>log l. False) = (log, Inr solns) \<and>
      (\<forall>s \<in> solns. IsValidSolution 48 5 130 (\<lambda>m p. 0) s = Inr True))"
proof -
  have n: "\<forall>log l. \<not> (\<lambda>(log :: probe_log) (l :: EhSolverCancelCheck). False) log l" by simp
  have w: "basic_widths_ok 48 5 66 130" by code_simp
  have k: "(1::nat) \<le> 5" by simp
  from basic_solutions_valid [OF n insertion_sort_spec w k, of "\<lambda>m p. 0"] w
  show ?thesis by blast
qed


end
